theory Spec2Isabelle
  imports Complex_Main
begin

section \<open>The search engine of learning/alpha_zero/distributed/mcts.py\<close>

text \<open>
  The class \<open>MCTS\<close> keeps six dictionaries and calls two collaborators: the game
  (the position oracle) and the network (the evaluator). The dictionaries become a
  record of maps that every function takes and returns; the collaborators and the
  configuration become a record of functions and constants.

  Python floats are read as real numbers. Where numpy would produce \<open>nan\<close> or
  \<open>inf\<close> (dividing a vector by a zero sum) the model has HOL's \<open>x / 0 = 0\<close>; every
  statement below about stored policies carries hypotheses under which the divisor
  is positive. Where a Python float operation leaves the range of a double, the model
  follows the exact value: it raises \<open>OverflowError\<close> where Python does, and
  statements about the computed distribution carry the hypothesis that the values
  stay in range. A raised exception ends the run: the model returns it as \<open>Inl\<close>
  and drops the tables.
\<close>

subsection \<open>Data\<close>

datatype error =
  IndexError | KeyError | ValueError | ZeroDivisionError | OverflowError | OracleError

text \<open>
  The game object. Its class lives outside the search module, so its methods are
  parameters. The player argument is the constant 1 at every call site but is kept.
  \<open>getValidMoves\<close> returns the legal mask, a boolean vector; in arithmetic numpy
  reads \<open>True\<close> as 1. \<open>getNextState\<close> is the only method that receives a value
  computed by the search (the action index), so it alone may refuse its input.
  \<open>isDarkChessGame\<close> stands for the test \<open>type(self.game) == DarkChessGame\<close>.
\<close>

record 'b game =
  stringRepresentation :: "'b \<Rightarrow> string"
  getGameEnded :: "'b \<Rightarrow> int \<Rightarrow> real"
  getValidMoves :: "'b \<Rightarrow> int \<Rightarrow> bool list"
  getNextState :: "'b \<Rightarrow> int \<Rightarrow> int \<Rightarrow> error + ('b \<times> int)"
  getCanonicalForm :: "'b \<Rightarrow> int \<Rightarrow> 'b"
  getActionSize :: nat
  isDarkChessGame :: bool
  getDarkness :: "'b \<Rightarrow> int \<Rightarrow> 'b"

record mcts_args =
  numMCTSSims :: int
  cpuct :: real
  maxMoves :: int

record 'b env =
  game :: "'b game"
  nnet_predict :: "'b \<Rightarrow> real list \<times> real"
  args :: mcts_args

text \<open>The six dictionaries of \<open>__init__\<close> (lines 19 to 24). Edge keys are pairs of a
  position key and an action index; the index is an \<open>int\<close> because the selection
  loop starts from the index \<open>-1\<close>.\<close>

record mcts =
  Qsa :: "(string \<times> int) \<rightharpoonup> real"
  Nsa :: "(string \<times> int) \<rightharpoonup> nat"
  Ns :: "string \<rightharpoonup> nat"
  Ps :: "string \<rightharpoonup> real list"
  Es :: "string \<rightharpoonup> real"
  Vs :: "string \<rightharpoonup> bool list"

definition empty_mcts :: mcts where
  "empty_mcts = \<lparr>Qsa = Map.empty, Nsa = Map.empty, Ns = Map.empty,
                 Ps = Map.empty, Es = Map.empty, Vs = Map.empty\<rparr>"

definition max_tree_depth :: "'b env \<Rightarrow> int" where
  "max_tree_depth E = maxMoves (args E)"

definition EPS :: real where
  "EPS = 1 / 10 ^ 8"

text \<open>The value written by the depth guard (line 72), \<open>1e-4\<close>.\<close>

definition depth_value :: real where
  "depth_value = 1 / 10 ^ 4"

subsection \<open>Expansion of a leaf (lines 81 to 114)\<close>

text \<open>An elementwise numpy operation on two one-dimensional arrays: equal lengths
  pair up, a length-one array is broadcast, anything else raises \<open>ValueError\<close>.\<close>

definition np_broadcast :: "('a \<Rightarrow> 'c \<Rightarrow> 'd) \<Rightarrow> 'a list \<Rightarrow> 'c list \<Rightarrow> error + 'd list" where
  "np_broadcast f xs ys =
     (if length xs = length ys then Inr (map2 f xs ys)
      else if length xs = 1 then Inr (map (f (hd xs)) ys)
      else if length ys = 1 then Inr (map (\<lambda>x. f x (hd ys)) xs)
      else Inl ValueError)"

definition mask_policy :: "real list \<Rightarrow> bool list \<Rightarrow> error + real list" where
  "mask_policy p valids = np_broadcast (\<lambda>x v. x * of_bool v) p valids"

definition add_valids :: "real list \<Rightarrow> bool list \<Rightarrow> error + real list" where
  "add_valids p valids = np_broadcast (\<lambda>x v. x + of_bool v) p valids"

definition normalize :: "real list \<Rightarrow> real list" where
  "normalize p = map (\<lambda>x. x / sum_list p) p"

definition stored_policy :: "real list \<Rightarrow> bool list \<Rightarrow> error + real list" where
  "stored_policy p valids =
     (case mask_policy p valids of
        Inl e \<Rightarrow> Inl e
      | Inr pm \<Rightarrow>
          if sum_list pm - 0 > 0 then Inr (map (\<lambda>x. x / sum_list pm) pm)
          else (case add_valids pm valids of
                  Inl e \<Rightarrow> Inl e
                | Inr q \<Rightarrow> Inr (normalize q)))"

definition expand :: "'b env \<Rightarrow> 'b \<Rightarrow> string \<Rightarrow> mcts \<Rightarrow> error + (real \<times> mcts)" where
  "expand E b s m =
     (let (p, v) = (if isDarkChessGame (game E)
                    then nnet_predict E (getDarkness (game E) b 1)
                    else nnet_predict E b);
          valids = getValidMoves (game E) b 1
      in case stored_policy p valids of
           Inl e \<Rightarrow> Inl e
         | Inr ps \<Rightarrow>
             Inr (- v, m\<lparr>Ps := (Ps m)(s \<mapsto> ps), Vs := (Vs m)(s \<mapsto> valids),
                           Ns := (Ns m)(s \<mapsto> 0)\<rparr>))"

subsection \<open>Selection at an internal node (lines 116 to 132)\<close>

text \<open>The upper confidence bound of action \<open>a\<close> (lines 123 to 126). A list index
  out of range raises \<open>IndexError\<close>, a missing dictionary key \<open>KeyError\<close>.\<close>

definition ucb :: "'b env \<Rightarrow> mcts \<Rightarrow> string \<Rightarrow> nat \<Rightarrow> error + real" where
  "ucb E m s a =
     (case Ps m s of
        None \<Rightarrow> Inl KeyError
      | Some ps \<Rightarrow>
          (case Qsa m (s, int a) of
             Some q \<Rightarrow>
               if a < length ps then
                 (case Ns m s of
                    None \<Rightarrow> Inl KeyError
                  | Some n \<Rightarrow>
                      (case Nsa m (s, int a) of
                         None \<Rightarrow> Inl KeyError
                       | Some k \<Rightarrow>
                           Inr (q + cpuct (args E) * ps ! a * sqrt (real n) / (1 + real k))))
               else Inl IndexError
           | None \<Rightarrow>
               if a < length ps then
                 (case Ns m s of
                    None \<Rightarrow> Inl KeyError
                  | Some n \<Rightarrow> Inr (cpuct (args E) * ps ! a * sqrt (real n + EPS)))
               else Inl IndexError))"

text \<open>\<open>cur_best\<close> starts at \<open>-float('inf')\<close>, written \<open>None\<close>: every real
  number is greater.\<close>

fun exceeds :: "real \<Rightarrow> real option \<Rightarrow> bool" where
  "exceeds u None = True"
| "exceeds u (Some c) = (u > c)"

text \<open>The loop over \<open>range(getActionSize())\<close>, carrying \<open>(cur_best, best_act)\<close>.\<close>

fun select_loop ::
  "'b env \<Rightarrow> mcts \<Rightarrow> string \<Rightarrow> bool list \<Rightarrow> nat list \<Rightarrow> real option \<times> int
     \<Rightarrow> error + (real option \<times> int)" where
  "select_loop E m s valids [] acc = Inr acc"
| "select_loop E m s valids (a # as) (cur_best, best_act) =
     (if a < length valids then
        (if valids ! a then
           (case ucb E m s a of
              Inl e \<Rightarrow> Inl e
            | Inr u \<Rightarrow>
                if exceeds u cur_best
                then select_loop E m s valids as (Some u, int a)
                else select_loop E m s valids as (cur_best, best_act))
         else select_loop E m s valids as (cur_best, best_act))
      else Inl IndexError)"

definition select_action :: "'b env \<Rightarrow> mcts \<Rightarrow> string \<Rightarrow> bool list \<Rightarrow> error + (real option \<times> int)" where
  "select_action E m s valids =
     select_loop E m s valids [0..<getActionSize (game E)] (None, - 1)"

subsection \<open>One call of search\<close>

text \<open>Everything \<open>search\<close> does before its recursive call (lines 70 to 134): either
  the call is over (\<open>Done\<close>: depth guard, terminal position, expanded leaf, or an
  exception), or it descends along edge \<open>(s, a)\<close> into the successor board.\<close>

datatype 'b phase = Done "error + (real \<times> mcts)" | Descend string int 'b mcts

definition pre_search :: "'b env \<Rightarrow> 'b \<Rightarrow> int \<Rightarrow> mcts \<Rightarrow> 'b phase" where
  "pre_search E b depth m =
     (let s = stringRepresentation (game E) b in
      if depth \<ge> max_tree_depth E
      then Done (Inr (- depth_value, m\<lparr>Es := (Es m)(s \<mapsto> depth_value)\<rparr>))
      else
        let (e, m1) = (case Es m s of
                         None \<Rightarrow> (let e = getGameEnded (game E) b 1
                                  in (e, m\<lparr>Es := (Es m)(s \<mapsto> e)\<rparr>))
                       | Some e \<Rightarrow> (e, m))
        in if e \<noteq> 0 then Done (Inr (- e, m1))
           else if Ps m1 s = None then Done (expand E b s m1)
           else (case Vs m1 s of
                   None \<Rightarrow> Done (Inl KeyError)
                 | Some valids \<Rightarrow>
                     (case select_action E m1 s valids of
                        Inl err \<Rightarrow> Done (Inl err)
                      | Inr (cur_best, best_act) \<Rightarrow>
                          (case getNextState (game E) b 1 best_act of
                             Inl err \<Rightarrow> Done (Inl err)
                           | Inr (next_s, next_player) \<Rightarrow>
                               Descend s best_act
                                 (getCanonicalForm (game E) next_s next_player) m1))))"

text \<open>The backup after the recursive call returned \<open>v\<close> (lines 138 to 147).\<close>

definition backup :: "string \<Rightarrow> int \<Rightarrow> real \<Rightarrow> mcts \<Rightarrow> error + (real \<times> mcts)" where
  "backup s a v m =
     (case (case Qsa m (s, a) of
              Some q \<Rightarrow>
                (case Nsa m (s, a) of
                   None \<Rightarrow> Inl KeyError
                 | Some n \<Rightarrow>
                     Inr (m\<lparr>Qsa := (Qsa m)((s, a) \<mapsto> (real n * q + v) / (real n + 1)),
                            Nsa := (Nsa m)((s, a) \<mapsto> n + 1)\<rparr>))
            | None \<Rightarrow>
                Inr (m\<lparr>Qsa := (Qsa m)((s, a) \<mapsto> v), Nsa := (Nsa m)((s, a) \<mapsto> 1)\<rparr>)) of
        Inl e \<Rightarrow> Inl e
      | Inr m1 \<Rightarrow>
          (case Ns m1 s of
             None \<Rightarrow> Inl KeyError
           | Some k \<Rightarrow> Inr (- v, m1\<lparr>Ns := (Ns m1)(s \<mapsto> k + 1)\<rparr>)))"

function search :: "'b env \<Rightarrow> 'b \<Rightarrow> int \<Rightarrow> mcts \<Rightarrow> error + (real \<times> mcts)" where
  "search E b depth m =
     (case pre_search E b depth m of
        Done r \<Rightarrow> r
      | Descend s a next_s m1 \<Rightarrow>
          (case search E next_s (depth + 1) m1 of
             Inl e \<Rightarrow> Inl e
           | Inr (v, m2) \<Rightarrow> backup s a v m2))"
  by pat_completeness auto
termination
  by (relation "measure (\<lambda>(E, b, depth, m). nat (max_tree_depth E - depth))")
     (auto simp: pre_search_def Let_def split: if_splits option.splits sum.splits prod.splits)

text \<open>Two readings of the same recursion, used to state properties of one
  simulation: the edges \<open>(s, a)\<close> along which the call descends, root first, and
  the result of the last call of the chain (the one that does not recurse).\<close>

function search_path :: "'b env \<Rightarrow> 'b \<Rightarrow> int \<Rightarrow> mcts \<Rightarrow> (string \<times> int) list" where
  "search_path E b depth m =
     (case pre_search E b depth m of
        Done r \<Rightarrow> []
      | Descend s a next_s m1 \<Rightarrow> (s, a) # search_path E next_s (depth + 1) m1)"
  by pat_completeness auto
termination
  by (relation "measure (\<lambda>(E, b, depth, m). nat (max_tree_depth E - depth))")
     (auto simp: pre_search_def Let_def split: if_splits option.splits sum.splits prod.splits)

function search_leaf :: "'b env \<Rightarrow> 'b \<Rightarrow> int \<Rightarrow> mcts \<Rightarrow> error + (real \<times> mcts)" where
  "search_leaf E b depth m =
     (case pre_search E b depth m of
        Done r \<Rightarrow> r
      | Descend s a next_s m1 \<Rightarrow> search_leaf E next_s (depth + 1) m1)"
  by pat_completeness auto
termination
  by (relation "measure (\<lambda>(E, b, depth, m). nat (max_tree_depth E - depth))")
     (auto simp: pre_search_def Let_def split: if_splits option.splits sum.splits prod.splits)

declare search.simps [simp del] search_path.simps [simp del] search_leaf.simps [simp del]

subsection \<open>getActionProb (lines 27 to 48)\<close>

text \<open>The loop of line 36: \<open>n\<close> calls of \<open>search\<close> from the same board at depth 0.\<close>

fun run_sims :: "'b env \<Rightarrow> 'b \<Rightarrow> nat \<Rightarrow> mcts \<Rightarrow> error + mcts" where
  "run_sims E b 0 m = Inr m"
| "run_sims E b (Suc n) m =
     (case search E b 0 m of
        Inl e \<Rightarrow> Inl e
      | Inr (v, m1) \<Rightarrow> run_sims E b n m1)"

definition counts_of :: "'b env \<Rightarrow> 'b \<Rightarrow> mcts \<Rightarrow> nat list" where
  "counts_of E b m =
     (let s = stringRepresentation (game E) b
      in map (\<lambda>a. case Nsa m (s, int a) of Some n \<Rightarrow> n | None \<Rightarrow> 0)
           [0..<getActionSize (game E)])"

text \<open>\<open>np.argmax\<close>: the first index of a maximum; an empty sequence raises.\<close>

definition argmax :: "nat list \<Rightarrow> error + nat" where
  "argmax xs =
     (if xs = [] then Inl ValueError
      else Inr (length (takeWhile (\<lambda>x. x < foldr max xs 0) xs)))"

text \<open>A real number that a double cannot hold: rounding to nearest gives \<open>inf\<close> from
  \<open>2 ^ 1024 - 2 ^ 970\<close> on.\<close>

definition double_overflow :: "real \<Rightarrow> bool" where
  "double_overflow r = (2 ^ 1024 - 2 ^ 970 \<le> r)"

text \<open>Python's \<open>x ** y\<close> for an integer base \<open>x \<ge> 0\<close> and a finite float exponent.
  The base is converted to a float first, which raises \<open>OverflowError\<close> when it is
  too large; so does a power that leaves the range of a double.\<close>

definition py_pow :: "real \<Rightarrow> real \<Rightarrow> error + real" where
  "py_pow x y =
     (if double_overflow x then Inl OverflowError
      else if x = 0 then (if y < 0 then Inl ZeroDivisionError else if y = 0 then Inr 1 else Inr 0)
      else if double_overflow (x powr y) then Inl OverflowError
      else Inr (x powr y))"

fun map_err :: "('a \<Rightarrow> error + 'c) \<Rightarrow> 'a list \<Rightarrow> error + 'c list" where
  "map_err f [] = Inr []"
| "map_err f (x # xs) =
     (case f x of
        Inl e \<Rightarrow> Inl e
      | Inr y \<Rightarrow> (case map_err f xs of Inl e \<Rightarrow> Inl e | Inr ys \<Rightarrow> Inr (y # ys)))"

text \<open>Lines 40 to 48. Dividing by a zero sum raises \<open>ZeroDivisionError\<close> (these are
  Python floats, not numpy arrays), unless there is no element to divide. A sum of
  floats that leaves the range of a double is \<open>inf\<close> without an exception, and every
  quotient by it is 0.\<close>

definition action_probs :: "nat list \<Rightarrow> real \<Rightarrow> error + real list" where
  "action_probs counts temp =
     (if temp = 0 then
        (case argmax counts of
           Inl e \<Rightarrow> Inl e
         | Inr bestA \<Rightarrow> Inr ((replicate (length counts) 0)[bestA := 1]))
      else
        (case map_err (\<lambda>x. py_pow (real x) (1 / temp)) counts of
           Inl e \<Rightarrow> Inl e
         | Inr cs \<Rightarrow>
             if cs \<noteq> [] \<and> sum_list cs = 0 then Inl ZeroDivisionError
             else if double_overflow (sum_list cs) then Inr (map (\<lambda>x. 0) cs)
             else Inr (map (\<lambda>x. x / sum_list cs) cs)))"

definition getActionProb :: "'b env \<Rightarrow> 'b \<Rightarrow> real \<Rightarrow> mcts \<Rightarrow> error + (real list \<times> mcts)" where
  "getActionProb E b temp m =
     (case run_sims E b (nat (numMCTSSims (args E))) m of
        Inl e \<Rightarrow> Inl e
      | Inr m1 \<Rightarrow>
          (case action_probs (counts_of E b m1) temp of
             Inl e \<Rightarrow> Inl e
           | Inr probs \<Rightarrow> Inr (probs, m1)))"

subsection \<open>Two small games\<close>

text \<open>A one-position game that never ends: the single action leads back to the same
  position. The flag says whether that action is legal; with \<open>False\<close> the oracle
  reports no legal action at a position that is not terminal.\<close>

definition loop_game :: "bool \<Rightarrow> unit game" where
  "loop_game legal =
     \<lparr>stringRepresentation = (\<lambda>b. ''k''),
      getGameEnded = (\<lambda>b p. 0),
      getValidMoves = (\<lambda>b p. [legal]),
      getNextState = (\<lambda>b p a. Inr (b, - 1)),
      getCanonicalForm = (\<lambda>b p. b),
      getActionSize = 1,
      isDarkChessGame = False,
      getDarkness = (\<lambda>b p. b)\<rparr>"

definition loop_env :: "bool \<Rightarrow> int \<Rightarrow> int \<Rightarrow> unit env" where
  "loop_env legal sims maxd =
     \<lparr>game = loop_game legal,
      nnet_predict = (\<lambda>b. ([1], 0)),
      args = \<lparr>numMCTSSims = sims, cpuct = 1, maxMoves = maxd\<rparr>\<rparr>"

text \<open>A countdown game: the board is a number of tokens, action 0 takes one and
  action 1 takes two; the player who finds no token has lost.\<close>

definition countdown_key :: "nat \<Rightarrow> string" where
  "countdown_key b = (if b = 0 then ''0'' else if b = 1 then ''1'' else if b = 2 then ''2'' else ''n'')"

definition countdown_game :: "nat game" where
  "countdown_game =
     \<lparr>stringRepresentation = countdown_key,
      getGameEnded = (\<lambda>b p. if b = 0 then - 1 else 0),
      getValidMoves = (\<lambda>b p. [1 \<le> b, 2 \<le> b]),
      getNextState = (\<lambda>b p a. if a = 0 \<or> a = 1 then Inr (b - nat (a + 1), - p)
                                else Inl OracleError),
      getCanonicalForm = (\<lambda>b p. b),
      getActionSize = 2,
      isDarkChessGame = False,
      getDarkness = (\<lambda>b p. b)\<rparr>"

definition countdown_env :: "int \<Rightarrow> nat env" where
  "countdown_env sims =
     \<lparr>game = countdown_game,
      nnet_predict = (\<lambda>b. ([1 / 2, 1 / 2], 1 / 4)),
      args = \<lparr>numMCTSSims = sims, cpuct = 1, maxMoves = 5\<rparr>\<rparr>"

subsection \<open>Definitions used to state the properties\<close>

text \<open>The score of the selection step in the words of the specification: an edge
  with prior visits (a positive visit count) scores
  \<open>Q + cpuct * P * sqrt N / (1 + n)\<close>, an edge without scores
  \<open>cpuct * P * sqrt (N + EPS)\<close>. A missing table entry reads as 0.\<close>

definition spec_score :: "'b env \<Rightarrow> mcts \<Rightarrow> string \<Rightarrow> nat \<Rightarrow> real" where
  "spec_score E m s a =
     (let P = (case Ps m s of Some ps \<Rightarrow> ps ! a | None \<Rightarrow> 0);
          N = (case Ns m s of Some n \<Rightarrow> n | None \<Rightarrow> 0);
          k = (case Nsa m (s, int a) of Some k \<Rightarrow> k | None \<Rightarrow> 0);
          q = (case Qsa m (s, int a) of Some q \<Rightarrow> q | None \<Rightarrow> 0)
      in if 0 < k then q + cpuct (args E) * P * sqrt (real N) / (1 + real k)
         else cpuct (args E) * P * sqrt (real N + EPS))"

text \<open>What the selection loop over the indices \<open>k..<n\<close> has done when it ends: kept
  its accumulator (no legal index beats \<open>cur_best\<close>), or picked index \<open>i\<close>, the
  first legal index with the largest score.\<close>

definition sel_keep :: "(nat \<Rightarrow> real) \<Rightarrow> bool list \<Rightarrow> nat \<Rightarrow> nat \<Rightarrow> real option \<Rightarrow> bool" where
  "sel_keep f valids k n cb = (\<forall>j. k \<le> j \<and> j < n \<and> valids ! j \<longrightarrow> \<not> exceeds (f j) cb)"

definition sel_pick :: "(nat \<Rightarrow> real) \<Rightarrow> bool list \<Rightarrow> nat \<Rightarrow> nat \<Rightarrow> real option \<Rightarrow> nat \<Rightarrow> bool" where
  "sel_pick f valids k n cb i =
     (k \<le> i \<and> i < n \<and> valids ! i \<and> exceeds (f i) cb
      \<and> (\<forall>j. k \<le> j \<and> j < i \<and> valids ! j \<longrightarrow> f j < f i)
      \<and> (\<forall>j. i \<le> j \<and> j < n \<and> valids ! j \<longrightarrow> f j \<le> f i))"

text \<open>The tables after the countdown position with two tokens has been expanded.\<close>

definition two_expanded :: mcts where
  "two_expanded = empty_mcts\<lparr>Ps := (Ps empty_mcts)(''2'' \<mapsto> [1 / 2, 1 / 2]),
                              Vs := (Vs empty_mcts)(''2'' \<mapsto> [True, True]),
                              Ns := (Ns empty_mcts)(''2'' \<mapsto> 0)\<rparr>"

text \<open>The value of \<open>Es[s]\<close> after the terminal check (lines 75 and 76): the cached
  entry, or the oracle's answer when there is none.\<close>

definition memo :: "'b env \<Rightarrow> 'b \<Rightarrow> mcts \<Rightarrow> real" where
  "memo E b m =
     (case Es m (stringRepresentation (game E) b) of
        None \<Rightarrow> getGameEnded (game E) b 1
      | Some e \<Rightarrow> e)"

text \<open>A mask is stored only together with a policy. Under that condition a later
  state keeps every stored policy and every stored mask.\<close>

definition masks_expanded :: "mcts \<Rightarrow> bool" where
  "masks_expanded m = (\<forall>s. Vs m s \<noteq> None \<longrightarrow> Ps m s \<noteq> None)"

definition grows :: "mcts \<Rightarrow> mcts \<Rightarrow> bool" where
  "grows m m' =
     ((\<forall>s x. Ps m s = Some x \<longrightarrow> Ps m' s = Some x)
      \<and> (masks_expanded m \<longrightarrow>
           masks_expanded m' \<and> (\<forall>s x. Vs m s = Some x \<longrightarrow> Vs m' s = Some x)))"

text \<open>The actions recorded in \<open>Nsa\<close> for a position, the count of an edge (0 when
  the edge was never visited), and the invariant of the visit counters.\<close>

definition edge_actions :: "mcts \<Rightarrow> string \<Rightarrow> int set" where
  "edge_actions m s = {a. Nsa m (s, a) \<noteq> None}"

definition edge_count :: "mcts \<Rightarrow> string \<Rightarrow> int \<Rightarrow> nat" where
  "edge_count m s a = (case Nsa m (s, a) of Some n \<Rightarrow> n | None \<Rightarrow> 0)"

definition visits_consistent :: "mcts \<Rightarrow> bool" where
  "visits_consistent m =
     (finite (dom (Nsa m))
      \<and> (\<forall>e. Qsa m e = None \<longrightarrow> Nsa m e = None)
      \<and> (\<forall>s a. Nsa m (s, a) \<noteq> None \<longrightarrow> Ps m s \<noteq> None)
      \<and> (\<forall>s. Ps m s \<noteq> None \<longrightarrow>
            Ns m s = Some (\<Sum>a\<in>edge_actions m s. edge_count m s a)))"

text \<open>An action index is legal for a mask when it lies in the action space and the
  mask marks it. The oracle keeps its contract when every position that is not
  terminal has a legal action. \<open>edges_legal\<close> is the invariant of the edge tables:
  every stored mask has a legal action, and every key of \<open>Nsa\<close> or \<open>Qsa\<close> pairs
  a position with an action that the mask stored for that position marks legal.\<close>

definition legal_action :: "'b env \<Rightarrow> bool list \<Rightarrow> int \<Rightarrow> bool" where
  "legal_action E valids a =
     (0 \<le> a \<and> nat a < getActionSize (game E) \<and> nat a < length valids \<and> valids ! nat a)"

definition has_legal :: "'b env \<Rightarrow> bool list \<Rightarrow> bool" where
  "has_legal E valids = (\<exists>i<getActionSize (game E). i < length valids \<and> valids ! i)"

definition oracle_legal :: "'b env \<Rightarrow> bool" where
  "oracle_legal E =
     (\<forall>b. getGameEnded (game E) b 1 = 0 \<longrightarrow> has_legal E (getValidMoves (game E) b 1))"

definition edges_legal :: "'b env \<Rightarrow> mcts \<Rightarrow> bool" where
  "edges_legal E m =
     (masks_expanded m
      \<and> (\<forall>s. Es m s = Some 0 \<longrightarrow> Ps m s \<noteq> None)
      \<and> (\<forall>s vs. Vs m s = Some vs \<longrightarrow> has_legal E vs)
      \<and> (\<forall>s a. Nsa m (s, a) \<noteq> None \<or> Qsa m (s, a) \<noteq> None \<longrightarrow>
            (\<exists>vs. Vs m s = Some vs \<and> legal_action E vs a)))"

text \<open>The tables after the first simulation of the one-position game (the root has
  been expanded), and tables that hold only the cached outcome of the lost countdown
  position.\<close>

definition loop_expanded :: "bool \<Rightarrow> mcts" where
  "loop_expanded legal =
     empty_mcts\<lparr>Es := (Es empty_mcts)(''k'' \<mapsto> 0),
                Ps := (Ps empty_mcts)(''k'' \<mapsto> [of_bool legal]),
                Vs := (Vs empty_mcts)(''k'' \<mapsto> [legal]),
                Ns := (Ns empty_mcts)(''k'' \<mapsto> 0)\<rparr>"

definition terminal_cached :: mcts where
  "terminal_cached = empty_mcts\<lparr>Es := (Es empty_mcts)(''0'' \<mapsto> - 1)\<rparr>"

text \<open>Countdown tables in which the positions with two tokens and with one token
  have been expanded and no edge has been visited.\<close>

definition both_expanded :: mcts where
  "both_expanded =
     empty_mcts\<lparr>Ps := (Ps empty_mcts)(''2'' \<mapsto> [1 / 2, 1 / 2], ''1'' \<mapsto> [1, 0]),
                Vs := (Vs empty_mcts)(''2'' \<mapsto> [True, True], ''1'' \<mapsto> [True, False]),
                Ns := (Ns empty_mcts)(''2'' \<mapsto> 0, ''1'' \<mapsto> 0)\<rparr>"

text \<open>What one call of \<open>search\<close> that returns \<open>v\<close> has done to the edge tables, in
  terms of the path \<open>p\<close> it descended: the last call of the chain returned
  \<open>(-1) ^ length p * v\<close>; edges off the path are untouched; and if the edges of the
  path are pairwise distinct and had no value before, the \<open>i\<close>-th of them now has
  count 1 and value \<open>- ((-1) ^ i * v)\<close>.\<close>

definition path_backed_up ::
  "'b env \<Rightarrow> 'b \<Rightarrow> int \<Rightarrow> mcts \<Rightarrow> real \<Rightarrow> mcts \<Rightarrow> bool" where
  "path_backed_up E b depth m v m' =
     (let p = search_path E b depth m in
      (\<exists>ml. search_leaf E b depth m = Inr ((- 1) ^ length p * v, ml))
      \<and> (\<forall>e. e \<notin> set p \<longrightarrow> Qsa m' e = Qsa m e \<and> Nsa m' e = Nsa m e)
      \<and> (distinct p \<and> (\<forall>e\<in>set p. Qsa m e = None) \<longrightarrow>
           (\<forall>i<length p. Nsa m' (p ! i) = Some 1 \<and> Qsa m' (p ! i) = Some (- ((- 1) ^ i * v)))))"

text \<open>An edge has a value exactly when it has a positive visit count.\<close>

definition edge_tables_agree :: "mcts \<Rightarrow> bool" where
  "edge_tables_agree m = (\<forall>e. (Qsa m e \<noteq> None) = (\<exists>k>0. Nsa m e = Some k))"

text \<open>The evaluator keeps its contract when, at every board, its policy has no
  negative entry and is as long as the legal mask. A table of policies is normalized
  when every stored policy has no negative entry and sums to 1; a policy that came
  out of a division by a zero sum is not.\<close>

definition policy_of :: "'b env \<Rightarrow> 'b \<Rightarrow> real list" where
  "policy_of E b =
     fst (if isDarkChessGame (game E) then nnet_predict E (getDarkness (game E) b 1)
          else nnet_predict E b)"

definition evaluator_ok :: "'b env \<Rightarrow> bool" where
  "evaluator_ok E =
     (\<forall>b. (\<forall>x\<in>set (policy_of E b). 0 \<le> x)
          \<and> length (policy_of E b) = length (getValidMoves (game E) b 1))"

definition policies_normalized :: "mcts \<Rightarrow> bool" where
  "policies_normalized m =
     (\<forall>s ps. Ps m s = Some ps \<longrightarrow> (\<forall>x\<in>set ps. 0 \<le> x) \<and> sum_list ps = 1)"

text \<open>The float computations of lines 46 and 47 stay in the range of a double: the
  exponent \<open>1 / temp\<close>, every count, and the sum of the powers (hence every power).\<close>

definition in_double_range :: "nat list \<Rightarrow> real \<Rightarrow> bool" where
  "in_double_range counts temp =
     (\<not> double_overflow (1 / temp)
      \<and> (\<forall>x\<in>set counts. \<not> double_overflow (real x))
      \<and> \<not> double_overflow (\<Sum>x\<leftarrow>counts. real x powr (1 / temp)))"

section \<open>Properties\<close>

subsection \<open>The depth guard\<close>

lemma pre_search_guard:
  "max_tree_depth E \<le> depth \<Longrightarrow>
   pre_search E b depth m =
     Done (Inr (- depth_value, m\<lparr>Es := (Es m)(stringRepresentation (game E) b \<mapsto> depth_value)\<rparr>))"
  by (simp add: pre_search_def)

lemma pre_search_Descend_depth:
  "pre_search E b depth m = Descend s a nb m1 \<Longrightarrow> depth < max_tree_depth E"
  by (auto simp: pre_search_def Let_def split: if_splits option.splits sum.splits prod.splits)

text \<open>
  Claim C6, as the code has it. A call with \<open>depth \<ge> max_tree_depth\<close> stores the
  fixed value \<open>1e-4\<close> under the key of the current board and returns its negation.
  The stored value is positive; it is the returned value that is the small negative
  number.
\<close>

theorem depth_guard_stores_positive:
  "max_tree_depth E \<le> depth \<Longrightarrow>
   search E b depth m =
     Inr (- depth_value, m\<lparr>Es := (Es m)(stringRepresentation (game E) b \<mapsto> depth_value)\<rparr>)
   \<and> depth_value = 1 / 10 ^ 4 \<and> 0 < depth_value"
  by (simp add: search.simps pre_search_guard depth_value_def)

theorem depth_guard_stores_positive_witness:
  "max_tree_depth (loop_env True 2 1) \<le> 1 \<and>
   search (loop_env True 2 1) () 1 empty_mcts =
     Inr (- depth_value, empty_mcts\<lparr>Es := (Es empty_mcts)(''k'' \<mapsto> depth_value)\<rparr>)"
  using depth_guard_stores_positive [of "loop_env True 2 1" 1 "()" empty_mcts]
  by (simp add: max_tree_depth_def loop_env_def loop_game_def)

text \<open>
  Claim C6 as stated says the memoized value is a negative epsilon. In the
  one-position game with depth limit 1, a call at depth 1 stores \<open>1 / 10 ^ 4\<close>, which
  is not negative, and returns \<open>- (1 / 10 ^ 4)\<close>.
\<close>

theorem depth_guard_negative_counterexample:
  "search (loop_env True 2 1) () 1 empty_mcts =
     Inr (- (1 / 10 ^ 4), empty_mcts\<lparr>Es := (Es empty_mcts)(''k'' \<mapsto> 1 / 10 ^ 4)\<rparr>)
   \<and> \<not> ((1 / 10 ^ 4 :: real) < 0)"
  by (simp add: search.simps pre_search_def max_tree_depth_def loop_env_def loop_game_def
        depth_value_def)

lemma search_path_length:
  "length (search_path E b depth m) \<le> nat (max_tree_depth E - depth)"
proof (induction E b depth m rule: search_path.induct)
  case (1 E b depth m)
  show ?case
  proof (cases "pre_search E b depth m")
    case (Done r)
    then show ?thesis by (subst search_path.simps) simp
  next
    case (Descend s a nb m1)
    from pre_search_Descend_depth [OF Descend] have lt: "depth < max_tree_depth E" .
    from "1.IH" [OF Descend]
    have "length (search_path E nb (depth + 1) m1) \<le> nat (max_tree_depth E - (depth + 1))" .
    with lt Descend show ?thesis by (subst search_path.simps) simp
  qed
qed

text \<open>
  Claim C7. \<open>search\<close> is a total function: its recursion is accepted with the
  measure \<open>max_tree_depth - depth\<close>, whatever the oracle and the evaluator return.
  The chain of recursive calls that starts at depth 0 has one call per edge of
  \<open>search_path\<close>, and that is at most \<open>max_tree_depth\<close> calls.
\<close>

theorem search_depth_bounded:
  "length (search_path E b 0 m) \<le> nat (max_tree_depth E)"
  using search_path_length [of E b 0 m] by simp

subsection \<open>Expansion\<close>

lemma sum_list_map_divide:
  "sum_list (map (\<lambda>x. x / c) xs) = sum_list xs / (c::real)"
  by (induction xs) (simp_all add: add_divide_distrib)

lemma mask_policy_eq:
  "length p = length valids \<Longrightarrow>
   mask_policy p valids = Inr (map2 (\<lambda>x v. x * of_bool v) p valids)"
  by (simp add: mask_policy_def np_broadcast_def)

lemma add_valids_eq:
  "length p = length valids \<Longrightarrow>
   add_valids p valids = Inr (map2 (\<lambda>x v. x + of_bool v) p valids)"
  by (simp add: add_valids_def np_broadcast_def)

lemma sum_list_of_bool:
  "sum_list (map (\<lambda>v. of_bool v :: real) valids) = real (length (filter id valids))"
  by (induction valids) simp_all

lemma sum_list_legal:
  assumes "length ps = length valids" "\<forall>i<length valids. \<not> valids ! i \<longrightarrow> ps ! i = (0::real)"
  shows "(\<Sum>i\<in>{i. i < length valids \<and> valids ! i}. ps ! i) = sum_list ps"
proof -
  have "sum_list ps = (\<Sum>i\<in>{0..<length ps}. ps ! i)"
    by (simp add: sum_list_sum_nth)
  also have "\<dots> = (\<Sum>i\<in>{i. i < length valids \<and> valids ! i}. ps ! i)"
    using assms by (intro sum.mono_neutral_right) auto
  finally show ?thesis by simp
qed

lemma stored_policy_props:
  assumes nonneg: "\<forall>x\<in>set p. 0 \<le> x"
    and len: "length p = length valids"
    and legal: "\<exists>i<length valids. valids ! i"
  shows "\<exists>ps. stored_policy p valids = Inr ps \<and> length ps = length valids
           \<and> (\<forall>i<length valids. 0 \<le> ps ! i)
           \<and> (\<forall>i<length valids. \<not> valids ! i \<longrightarrow> ps ! i = 0)
           \<and> sum_list ps = 1
           \<and> (sum_list (map2 (\<lambda>x v. x * of_bool v) p valids) = 0 \<longrightarrow>
                (\<forall>i<length valids. valids ! i \<longrightarrow> ps ! i = 1 / real (length (filter id valids))))"
proof -
  define pm where "pm = map2 (\<lambda>x v. x * of_bool v) p valids"
  have lpm: "length pm = length valids" using len by (simp add: pm_def)
  have nth_pm: "pm ! i = p ! i * of_bool (valids ! i)" if "i < length valids" for i
    using that len by (simp add: pm_def)
  have pm_nonneg: "\<forall>x\<in>set pm. 0 \<le> x"
  proof
    fix x assume "x \<in> set pm"
    then obtain i where i: "i < length pm" "pm ! i = x" by (auto simp: in_set_conv_nth)
    with lpm len nonneg have "0 \<le> p ! i" by simp
    with i lpm nth_pm [of i] show "0 \<le> x" by (cases "valids ! i") auto
  qed
  then have sum_nonneg: "0 \<le> sum_list pm" by (simp add: sum_list_nonneg)
  show ?thesis
  proof (cases "0 < sum_list pm")
    case True
    let ?ps = "map (\<lambda>x. x / sum_list pm) pm"
    have sp: "stored_policy p valids = Inr ?ps"
      using True len by (simp add: stored_policy_def mask_policy_eq pm_def)
    have "\<forall>i<length valids. 0 \<le> ?ps ! i"
      using pm_nonneg lpm True by (simp add: divide_nonneg_pos)
    moreover have "\<forall>i<length valids. \<not> valids ! i \<longrightarrow> ?ps ! i = 0"
      using lpm nth_pm by simp
    moreover have "sum_list ?ps = 1" using True by (simp add: sum_list_map_divide)
    moreover have "sum_list pm \<noteq> 0" using True by simp
    ultimately show ?thesis using sp lpm unfolding pm_def [symmetric] by auto
  next
    case False
    with sum_nonneg have z: "sum_list pm = 0" by simp
    with pm_nonneg have allz: "\<forall>x\<in>set pm. x = 0"
      by (simp add: sum_list_nonneg_eq_0_iff)
    then have pm0: "pm = replicate (length valids) 0"
      using lpm by (metis replicate_eqI)
    have q: "map2 (\<lambda>x v. x + of_bool v) pm valids = map (\<lambda>v. of_bool v :: real) valids"
      unfolding pm0 by (rule nth_equalityI) simp_all
    let ?q = "map (\<lambda>v. of_bool v :: real) valids"
    let ?c = "real (length (filter id valids))"
    have sp: "stored_policy p valids = Inr (normalize ?q)"
      using z len lpm by (simp add: stored_policy_def mask_policy_eq pm_def [symmetric] add_valids_eq q)
    from legal obtain i where "i < length valids" "valids ! i" by blast
    then have "valids ! i \<in> set (filter id valids)" using nth_mem [of i valids] by simp
    then have "filter id valids \<noteq> []" by (metis empty_iff list.set(1))
    then have cpos: "0 < ?c" by simp
    have nth_ps: "normalize ?q ! i = of_bool (valids ! i) / ?c" if "i < length valids" for i
      using that by (simp add: normalize_def sum_list_of_bool)
    have "\<forall>i<length valids. 0 \<le> normalize ?q ! i" using nth_ps by simp
    moreover have "\<forall>i<length valids. \<not> valids ! i \<longrightarrow> normalize ?q ! i = 0" using nth_ps by simp
    moreover have "sum_list (normalize ?q) = 1"
    proof -
      have "sum_list (normalize ?q) = sum_list ?q / sum_list ?q"
        unfolding normalize_def by (rule sum_list_map_divide)
      then show ?thesis using cpos by (simp only: sum_list_of_bool) simp
    qed
    moreover have "\<forall>i<length valids. valids ! i \<longrightarrow> normalize ?q ! i = 1 / ?c" using nth_ps by simp
    moreover have "length (normalize ?q) = length valids" by (simp add: normalize_def)
    ultimately show ?thesis using sp by blast
  qed
qed

text \<open>
  Claim C4. The evaluator returns \<open>exp\<close> of the network's log-probabilities
  (NNet.predict, line 105), so its policy entries are not negative, and its length
  is the size of the action space, the length of the legal mask. For every such
  output and every mask with a legal action, expansion succeeds and stores a policy
  that is zero on every illegal action and sums to 1 over the legal ones; when the
  masked policy sums to zero, the stored policy is uniform over the legal actions.
\<close>

theorem expansion_masks_and_normalizes:
  assumes pv: "(if isDarkChessGame (game E) then nnet_predict E (getDarkness (game E) b 1)
                else nnet_predict E b) = (p, v)"
    and vm: "getValidMoves (game E) b 1 = valids"
    and nonneg: "\<forall>x\<in>set p. 0 \<le> x"
    and len: "length p = length valids"
    and legal: "\<exists>i<length valids. valids ! i"
  shows "\<exists>ps. expand E b s m =
                 Inr (- v, m\<lparr>Ps := (Ps m)(s \<mapsto> ps), Vs := (Vs m)(s \<mapsto> valids),
                               Ns := (Ns m)(s \<mapsto> 0)\<rparr>)
           \<and> length ps = length valids
           \<and> (\<forall>i<length valids. 0 \<le> ps ! i)
           \<and> (\<forall>i<length valids. \<not> valids ! i \<longrightarrow> ps ! i = 0)
           \<and> (\<Sum>i\<in>{i. i < length valids \<and> valids ! i}. ps ! i) = 1
           \<and> (sum_list (map2 (\<lambda>x v. x * of_bool v) p valids) = 0 \<longrightarrow>
                (\<forall>i<length valids. valids ! i \<longrightarrow> ps ! i = 1 / real (length (filter id valids))))"
proof -
  from stored_policy_props [OF nonneg len legal] obtain ps where
    sp: "stored_policy p valids = Inr ps" and l: "length ps = length valids"
    and n: "\<forall>i<length valids. 0 \<le> ps ! i"
    and z: "\<forall>i<length valids. \<not> valids ! i \<longrightarrow> ps ! i = 0"
    and s1: "sum_list ps = 1"
    and u: "sum_list (map2 (\<lambda>x v. x * of_bool v) p valids) = 0 \<longrightarrow>
                (\<forall>i<length valids. valids ! i \<longrightarrow> ps ! i = 1 / real (length (filter id valids)))"
    by blast
  have ex: "expand E b s m =
                 Inr (- v, m\<lparr>Ps := (Ps m)(s \<mapsto> ps), Vs := (Vs m)(s \<mapsto> valids),
                               Ns := (Ns m)(s \<mapsto> 0)\<rparr>)"
    using pv vm sp by (simp add: expand_def)
  have "(\<Sum>i\<in>{i. i < length valids \<and> valids ! i}. ps ! i) = 1"
    using sum_list_legal [OF l z] s1 by simp
  with ex l n z u show ?thesis by blast
qed

theorem expansion_masks_and_normalizes_witness:
  "\<exists>ps. expand (countdown_env 2) 1 ''1'' empty_mcts =
          Inr (- (1 / 4), empty_mcts\<lparr>Ps := (Ps empty_mcts)(''1'' \<mapsto> ps),
                                        Vs := (Vs empty_mcts)(''1'' \<mapsto> [True, False]),
                                        Ns := (Ns empty_mcts)(''1'' \<mapsto> 0)\<rparr>)
        \<and> length ps = 2 \<and> ps ! 1 = 0
        \<and> (\<Sum>i\<in>{i. i < 2 \<and> [True, False] ! i}. ps ! i) = 1"
proof -
  have pv: "(if isDarkChessGame (game (countdown_env 2))
             then nnet_predict (countdown_env 2) (getDarkness (game (countdown_env 2)) 1 1)
             else nnet_predict (countdown_env 2) 1) = ([1 / 2, 1 / 2], 1 / 4)"
    by (simp add: countdown_env_def countdown_game_def)
  have vm: "getValidMoves (game (countdown_env 2)) 1 1 = [True, False]"
    by (simp add: countdown_env_def countdown_game_def)
  have nonneg: "\<forall>x\<in>set [1 / 2, 1 / 2 :: real]. 0 \<le> x" by simp
  have len: "length [1 / 2, 1 / 2 :: real] = length [True, False]" by simp
  have legal: "\<exists>i<length [True, False]. [True, False] ! i"
    by (rule exI [of _ 0]) simp
  from expansion_masks_and_normalizes [OF pv vm nonneg len legal, of "''1''" empty_mcts]
  obtain ps where
    e: "expand (countdown_env 2) 1 ''1'' empty_mcts =
          Inr (- (1 / 4), empty_mcts\<lparr>Ps := (Ps empty_mcts)(''1'' \<mapsto> ps),
                                        Vs := (Vs empty_mcts)(''1'' \<mapsto> [True, False]),
                                        Ns := (Ns empty_mcts)(''1'' \<mapsto> 0)\<rparr>)"
    and l: "length ps = length [True, False]"
    and z: "\<forall>i<length [True, False]. \<not> [True, False] ! i \<longrightarrow> ps ! i = 0"
    and s: "(\<Sum>i\<in>{i. i < length [True, False] \<and> [True, False] ! i}. ps ! i) = 1"
    by blast
  from z have z1: "ps ! 1 = 0" by simp
  from l have l2: "length ps = 2" by simp
  from s have s2: "(\<Sum>i\<in>{i. i < 2 \<and> [True, False] ! i}. ps ! i) = 1"
    by (simp add: numeral_2_eq_2)
  from e l2 z1 s2 show ?thesis by blast
qed

subsection \<open>Selection\<close>

lemma ucb_spec_score:
  assumes "Ps m s = Some ps" "Ns m s = Some n" "a < length ps"
    and "(Qsa m (s, int a) \<noteq> None) = (\<exists>k>0. Nsa m (s, int a) = Some k)"
  shows "ucb E m s a = Inr (spec_score E m s a)"
  using assms by (auto simp: ucb_def spec_score_def split: option.splits)

lemma exceeds_trans: "exceeds u (Some w) \<Longrightarrow> exceeds w cb \<Longrightarrow> exceeds u cb"
  by (cases cb) auto

lemma not_exceeds_less: "\<not> exceeds w cb \<Longrightarrow> exceeds u cb \<Longrightarrow> w < u"
  by (cases cb) auto

lemma from_Suc: "k \<le> j \<Longrightarrow> j \<noteq> k \<Longrightarrow> Suc k \<le> (j::nat)"
  by simp

lemma sel_keep_step:
  "\<not> (valids ! k \<and> exceeds (f k) cb) \<Longrightarrow> sel_keep f valids (Suc k) n cb \<Longrightarrow> sel_keep f valids k n cb"
  unfolding sel_keep_def by (metis from_Suc)

lemma sel_pick_skip:
  assumes "\<not> (valids ! k \<and> exceeds (f k) cb)" "sel_pick f valids (Suc k) n cb i"
  shows "sel_pick f valids k n cb i"
proof -
  have "f j < f i" if "k \<le> j \<and> j < i \<and> valids ! j" for j
  proof (cases "j = k")
    case True
    with that assms(1) have "\<not> exceeds (f k) cb" by simp
    moreover from assms(2) have "exceeds (f i) cb" by (simp add: sel_pick_def)
    ultimately show ?thesis using True by (simp add: not_exceeds_less)
  next
    case False
    with that have "Suc k \<le> j" by simp
    with that assms(2) show ?thesis by (simp add: sel_pick_def)
  qed
  with assms(2) show ?thesis by (simp add: sel_pick_def)
qed

lemma sel_pick_here:
  assumes "valids ! k" "exceeds (f k) cb" "k < n" "sel_keep f valids (Suc k) n (Some (f k))"
  shows "sel_pick f valids k n cb k"
proof -
  have "f j \<le> f k" if "k \<le> j \<and> j < n \<and> valids ! j" for j
  proof (cases "j = k")
    case True then show ?thesis by simp
  next
    case False
    with that have "Suc k \<le> j" by simp
    with that assms(4) have "\<not> exceeds (f j) (Some (f k))" by (simp add: sel_keep_def)
    then show ?thesis by simp
  qed
  with assms show ?thesis by (simp add: sel_pick_def)
qed

lemma sel_pick_later:
  assumes "valids ! k" "exceeds (f k) cb" "sel_pick f valids (Suc k) n (Some (f k)) i"
  shows "sel_pick f valids k n cb i"
proof -
  from assms(3) have fi: "exceeds (f i) (Some (f k))" by (simp add: sel_pick_def)
  have "f j < f i" if "k \<le> j \<and> j < i \<and> valids ! j" for j
  proof (cases "j = k")
    case True with fi show ?thesis by simp
  next
    case False
    with that have "Suc k \<le> j" by simp
    with that assms(3) show ?thesis by (simp add: sel_pick_def)
  qed
  moreover from fi assms(2) have "exceeds (f i) cb" by (rule exceeds_trans)
  ultimately show ?thesis using assms(3) by (simp add: sel_pick_def)
qed

lemma select_loop_upt:
  assumes wf: "\<forall>a. k \<le> a \<and> a < n \<longrightarrow> a < length valids \<and> (valids ! a \<longrightarrow> ucb E m s a = Inr (f a))"
  shows "(select_loop E m s valids [k..<n] (cb, ba) = Inr (cb, ba) \<and> sel_keep f valids k n cb)
         \<or> (\<exists>i. select_loop E m s valids [k..<n] (cb, ba) = Inr (Some (f i), int i)
                 \<and> sel_pick f valids k n cb i)"
  using wf
proof (induction "n - k" arbitrary: k cb ba)
  case 0
  then have "select_loop E m s valids [k..<n] (cb, ba) = Inr (cb, ba)" by simp
  moreover from 0(1) have "sel_keep f valids k n cb" by (auto simp: sel_keep_def)
  ultimately show ?case by blast
next
  case (Suc d)
  then have kn: "k < n" by simp
  then have upt: "[k..<n] = k # [Suc k..<n]" by (simp add: upt_conv_Cons)
  from Suc.prems kn have klen: "k < length valids" by simp
  from Suc.hyps(2) have d: "d = n - Suc k" by simp
  have wf': "\<forall>a. Suc k \<le> a \<and> a < n \<longrightarrow> a < length valids \<and> (valids ! a \<longrightarrow> ucb E m s a = Inr (f a))"
    using Suc.prems by simp
  show ?case
  proof (cases "valids ! k \<and> exceeds (f k) cb")
    case True
    with Suc.prems kn have u: "ucb E m s k = Inr (f k)" by simp
    have step: "select_loop E m s valids [k..<n] (cb, ba) =
                select_loop E m s valids [Suc k..<n] (Some (f k), int k)"
      using True u klen by (simp add: upt)
    from Suc.hyps(1) [OF d wf', of "Some (f k)" "int k"] show ?thesis
    proof
      assume "select_loop E m s valids [Suc k..<n] (Some (f k), int k) = Inr (Some (f k), int k)
              \<and> sel_keep f valids (Suc k) n (Some (f k))"
      with True kn have "select_loop E m s valids [k..<n] (cb, ba) = Inr (Some (f k), int k)
                 \<and> sel_pick f valids k n cb k"
        by (simp add: step sel_pick_here)
      then show ?thesis by blast
    next
      assume "\<exists>i. select_loop E m s valids [Suc k..<n] (Some (f k), int k) = Inr (Some (f i), int i)
                 \<and> sel_pick f valids (Suc k) n (Some (f k)) i"
      then obtain i where "select_loop E m s valids [Suc k..<n] (Some (f k), int k) = Inr (Some (f i), int i)"
        "sel_pick f valids (Suc k) n (Some (f k)) i" by blast
      with True have "select_loop E m s valids [k..<n] (cb, ba) = Inr (Some (f i), int i)
                 \<and> sel_pick f valids k n cb i"
        by (simp add: step sel_pick_later)
      then show ?thesis by blast
    qed
  next
    case False
    have step: "select_loop E m s valids [k..<n] (cb, ba) =
                select_loop E m s valids [Suc k..<n] (cb, ba)"
    proof (cases "valids ! k")
      case True
      with Suc.prems kn have u: "ucb E m s k = Inr (f k)" by simp
      with True False klen show ?thesis by (simp add: upt)
    next
      case False
      with klen show ?thesis by (simp add: upt)
    qed
    from Suc.hyps(1) [OF d wf', of cb ba] show ?thesis
    proof
      assume "select_loop E m s valids [Suc k..<n] (cb, ba) = Inr (cb, ba)
              \<and> sel_keep f valids (Suc k) n cb"
      with False have "select_loop E m s valids [k..<n] (cb, ba) = Inr (cb, ba) \<and> sel_keep f valids k n cb"
        by (simp add: step sel_keep_step)
      then show ?thesis by blast
    next
      assume "\<exists>i. select_loop E m s valids [Suc k..<n] (cb, ba) = Inr (Some (f i), int i)
                 \<and> sel_pick f valids (Suc k) n cb i"
      then obtain i where "select_loop E m s valids [Suc k..<n] (cb, ba) = Inr (Some (f i), int i)"
        "sel_pick f valids (Suc k) n cb i" by blast
      with False have "select_loop E m s valids [k..<n] (cb, ba) = Inr (Some (f i), int i)
                 \<and> sel_pick f valids k n cb i"
        by (simp add: step sel_pick_skip)
      then show ?thesis by blast
    qed
  qed
qed

lemma select_action_pick:
  assumes wf: "\<forall>a<getActionSize (game E). a < length valids \<and> (valids ! a \<longrightarrow> ucb E m s a = Inr (f a))"
    and legal: "\<exists>a<getActionSize (game E). valids ! a"
  shows "\<exists>i. select_action E m s valids = Inr (Some (f i), int i)
              \<and> sel_pick f valids 0 (getActionSize (game E)) None i"
proof -
  from wf have "\<forall>a. 0 \<le> a \<and> a < getActionSize (game E) \<longrightarrow>
                  a < length valids \<and> (valids ! a \<longrightarrow> ucb E m s a = Inr (f a))" by simp
  from select_loop_upt [OF this, of None "- 1"] legal show ?thesis
    unfolding select_action_def by (auto simp: sel_keep_def)
qed

lemma select_action_none:
  assumes wf: "\<forall>a<getActionSize (game E). a < length valids \<and> \<not> valids ! a"
  shows "select_action E m s valids = Inr (None, - 1)"
proof -
  from wf have "\<forall>a. 0 \<le> a \<and> a < getActionSize (game E) \<longrightarrow>
                  a < length valids \<and> (valids ! a \<longrightarrow> ucb E m s a = Inr 0)" by simp
  from select_loop_upt [OF this, of None "- 1"] wf show ?thesis
    unfolding select_action_def by (auto simp: sel_pick_def)
qed

text \<open>
  Claim C3. At an expanded node whose tables are well formed (a policy and a mask
  as long as the action space, a node count, and an edge value exactly for the edges
  with a positive visit count) and whose mask has a legal action, the selection
  returns a legal action \<open>i\<close> together with its score; no legal action scores
  higher, and every legal action with a smaller index scores strictly lower.
\<close>

theorem selection_maximizes_ucb:
  assumes ps: "Ps m s = Some ps" and ns: "Ns m s = Some n"
    and lp: "getActionSize (game E) \<le> length ps"
    and lv: "getActionSize (game E) \<le> length valids"
    and visited: "\<forall>a. (Qsa m (s, a) \<noteq> None) = (\<exists>k>0. Nsa m (s, a) = Some k)"
    and legal: "\<exists>a<getActionSize (game E). valids ! a"
  shows "\<exists>i<getActionSize (game E). valids ! i
           \<and> select_action E m s valids = Inr (Some (spec_score E m s i), int i)
           \<and> (\<forall>j<getActionSize (game E). valids ! j \<longrightarrow>
                 spec_score E m s j \<le> spec_score E m s i
                 \<and> (j < i \<longrightarrow> spec_score E m s j < spec_score E m s i))"
proof -
  have "\<forall>a<getActionSize (game E). a < length valids
          \<and> (valids ! a \<longrightarrow> ucb E m s a = Inr (spec_score E m s a))"
    using ps ns lp lv visited by (auto intro!: ucb_spec_score)
  from select_action_pick [OF this legal] obtain i where
    sel: "select_action E m s valids = Inr (Some (spec_score E m s i), int i)"
    and pick: "sel_pick (spec_score E m s) valids 0 (getActionSize (game E)) None i" by blast
  from pick have "i < getActionSize (game E)" "valids ! i" by (simp_all add: sel_pick_def)
  moreover have "\<forall>j<getActionSize (game E). valids ! j \<longrightarrow>
                 spec_score E m s j \<le> spec_score E m s i
                 \<and> (j < i \<longrightarrow> spec_score E m s j < spec_score E m s i)"
  proof (intro allI impI)
    fix j assume j: "j < getActionSize (game E)" "valids ! j"
    show "spec_score E m s j \<le> spec_score E m s i
                 \<and> (j < i \<longrightarrow> spec_score E m s j < spec_score E m s i)"
    proof (cases "j < i")
      case True
      with pick j have "spec_score E m s j < spec_score E m s i" by (simp add: sel_pick_def)
      then show ?thesis by simp
    next
      case False
      with pick j have "spec_score E m s j \<le> spec_score E m s i" by (simp add: sel_pick_def)
      with False show ?thesis by simp
    qed
  qed
  ultimately show ?thesis using sel by blast
qed

text \<open>With two unvisited legal actions of equal prior the scores tie, and the
  selection returns action 0.\<close>

theorem selection_maximizes_ucb_witness:
  "select_action (countdown_env 2) two_expanded ''2'' [True, True] =
     Inr (Some (spec_score (countdown_env 2) two_expanded ''2'' 0), 0)"
proof -
  let ?E = "countdown_env 2"
  have n: "getActionSize (game ?E) = 2" by (simp add: countdown_env_def countdown_game_def)
  have ps: "Ps two_expanded ''2'' = Some [1 / 2, 1 / 2]" by (simp add: two_expanded_def)
  have ns: "Ns two_expanded ''2'' = Some 0" by (simp add: two_expanded_def)
  have lp: "getActionSize (game ?E) \<le> length [1 / 2, 1 / 2 :: real]" by (simp add: n)
  have lv: "getActionSize (game ?E) \<le> length [True, True]" by (simp add: n)
  have visited: "\<forall>a. (Qsa two_expanded (''2'', a) \<noteq> None) = (\<exists>k>0. Nsa two_expanded (''2'', a) = Some k)"
    by (simp add: two_expanded_def empty_mcts_def)
  have legal: "\<exists>a<getActionSize (game ?E). [True, True] ! a"
    by (rule exI [of _ 0]) (simp add: n)
  from selection_maximizes_ucb [OF ps ns lp lv visited legal]
  obtain i where i: "i < getActionSize (game ?E)"
    and sel: "select_action ?E two_expanded ''2'' [True, True] =
                Inr (Some (spec_score ?E two_expanded ''2'' i), int i)"
    and first: "\<forall>j<getActionSize (game ?E). [True, True] ! j \<longrightarrow>
                 spec_score ?E two_expanded ''2'' j \<le> spec_score ?E two_expanded ''2'' i
                 \<and> (j < i \<longrightarrow> spec_score ?E two_expanded ''2'' j < spec_score ?E two_expanded ''2'' i)"
    by blast
  have tie: "spec_score ?E two_expanded ''2'' 0 = spec_score ?E two_expanded ''2'' 1"
    by (simp add: spec_score_def two_expanded_def empty_mcts_def)
  have "i = 0"
  proof (rule ccontr)
    assume "i \<noteq> 0"
    with i n have "i = 1" by simp
    from first n have "[True, True] ! 0 \<longrightarrow> (0 < i \<longrightarrow>
        spec_score ?E two_expanded ''2'' 0 < spec_score ?E two_expanded ''2'' i)"
      by (metis zero_less_numeral)
    with \<open>i = 1\<close> have "spec_score ?E two_expanded ''2'' 0 < spec_score ?E two_expanded ''2'' 1"
      by simp
    with tie show False by simp
  qed
  with sel show ?thesis by simp
qed

subsection \<open>The shape of one call\<close>

lemma pre_search_below:
  assumes "depth < max_tree_depth E"
  shows "pre_search E b depth m =
     (let s = stringRepresentation (game E) b;
          m1 = m\<lparr>Es := (Es m)(s \<mapsto> memo E b m)\<rparr>
      in if memo E b m \<noteq> 0 then Done (Inr (- memo E b m, m1))
         else if Ps m s = None then Done (expand E b s m1)
         else (case Vs m s of
                 None \<Rightarrow> Done (Inl KeyError)
               | Some valids \<Rightarrow>
                   (case select_action E m1 s valids of
                      Inl err \<Rightarrow> Done (Inl err)
                    | Inr (cur_best, best_act) \<Rightarrow>
                        (case getNextState (game E) b 1 best_act of
                           Inl err \<Rightarrow> Done (Inl err)
                         | Inr (next_s, next_player) \<Rightarrow>
                             Descend s best_act
                               (getCanonicalForm (game E) next_s next_player) m1))))"
proof (cases "Es m (stringRepresentation (game E) b)")
  case None
  with assms show ?thesis by (simp add: pre_search_def memo_def Let_def)
next
  case (Some e)
  then have eq: "m\<lparr>Es := (Es m)(stringRepresentation (game E) b \<mapsto> memo E b m)\<rparr> = m"
    by (simp add: fun_upd_idem memo_def)
  have e: "memo E b m = e" using Some by (simp add: memo_def)
  show ?thesis unfolding Let_def eq using Some assms e by (simp add: pre_search_def Let_def)
qed

lemma pre_search_Descend:
  assumes "pre_search E b depth m = Descend s a nb m1"
  shows "depth < max_tree_depth E \<and> s = stringRepresentation (game E) b \<and> memo E b m = 0
         \<and> m1 = m\<lparr>Es := (Es m)(s \<mapsto> 0)\<rparr> \<and> Ps m s \<noteq> None
         \<and> (\<exists>valids cb. Vs m s = Some valids \<and> select_action E m1 s valids = Inr (cb, a))
         \<and> (\<exists>ns np. getNextState (game E) b 1 a = Inr (ns, np)
                \<and> nb = getCanonicalForm (game E) ns np)"
proof -
  from pre_search_Descend_depth [OF assms] have lt: "depth < max_tree_depth E" .
  from assms lt show ?thesis
    unfolding pre_search_below [OF lt]
    by (auto simp: Let_def split: if_splits option.splits sum.splits prod.splits)
qed

lemma pre_search_Done:
  assumes "pre_search E b depth m = Done (Inr (v, m'))"
  shows "(max_tree_depth E \<le> depth \<and> v = - depth_value
            \<and> m' = m\<lparr>Es := (Es m)(stringRepresentation (game E) b \<mapsto> depth_value)\<rparr>)
         \<or> (depth < max_tree_depth E \<and> memo E b m \<noteq> 0 \<and> v = - memo E b m
            \<and> m' = m\<lparr>Es := (Es m)(stringRepresentation (game E) b \<mapsto> memo E b m)\<rparr>)
         \<or> (depth < max_tree_depth E \<and> memo E b m = 0
            \<and> Ps m (stringRepresentation (game E) b) = None
            \<and> expand E b (stringRepresentation (game E) b)
                 (m\<lparr>Es := (Es m)(stringRepresentation (game E) b \<mapsto> 0)\<rparr>) = Inr (v, m'))"
proof (cases "depth < max_tree_depth E")
  case True
  from assms show ?thesis
    unfolding pre_search_below [OF True]
    by (auto simp: Let_def True split: if_splits option.splits sum.splits prod.splits)
next
  case False
  with assms show ?thesis by (simp add: pre_search_guard)
qed

lemma expand_Inr:
  assumes "expand E b s m = Inr (v, m')"
  shows "\<exists>ps. m' = m\<lparr>Ps := (Ps m)(s \<mapsto> ps), Vs := (Vs m)(s \<mapsto> getValidMoves (game E) b 1),
                      Ns := (Ns m)(s \<mapsto> 0)\<rparr>"
  using assms by (auto simp: expand_def Let_def split: prod.splits sum.splits)

lemma backup_Inr:
  assumes "backup s a v m = Inr (v', m')"
  shows "v' = - v \<and> (\<exists>k q n. Ns m s = Some k
           \<and> m' = m\<lparr>Qsa := (Qsa m)((s, a) \<mapsto> q), Nsa := (Nsa m)((s, a) \<mapsto> n),
                     Ns := (Ns m)(s \<mapsto> k + 1)\<rparr>
           \<and> ((Qsa m (s, a) = None \<and> q = v \<and> n = 1)
              \<or> (\<exists>q0 n0. Qsa m (s, a) = Some q0 \<and> Nsa m (s, a) = Some n0
                    \<and> q = (real n0 * q0 + v) / (real n0 + 1) \<and> n = n0 + 1)))"
  using assms by (auto simp: backup_def split: option.splits sum.splits)

lemma search_rule:
  assumes fin: "\<And>b depth m v m'. pre_search E b depth m = Done (Inr (v, m')) \<Longrightarrow> R b depth m v m'"
    and desc: "\<And>b depth m s a nb m1 v m2 v' m'.
                 pre_search E b depth m = Descend s a nb m1 \<Longrightarrow>
                 search E nb (depth + 1) m1 = Inr (v, m2) \<Longrightarrow>
                 R nb (depth + 1) m1 v m2 \<Longrightarrow>
                 backup s a v m2 = Inr (v', m') \<Longrightarrow> R b depth m v' m'"
    and res: "search E b depth m = Inr (v, m')"
  shows "R b depth m v m'"
  using fin desc res
proof (induction E b depth m arbitrary: v m' rule: search.induct)
  case (1 E b depth m)
  note fin = "1.prems"(1) and desc = "1.prems"(2) and res = "1.prems"(3)
  show ?case
  proof (cases "pre_search E b depth m")
    case (Done r)
    with res have "r = Inr (v, m')" by (subst (asm) search.simps) simp
    with Done show ?thesis by (simp add: fin)
  next
    case (Descend s a nb m1)
    with res obtain w m2 where
      rec: "search E nb (depth + 1) m1 = Inr (w, m2)" and bk: "backup s a w m2 = Inr (v, m')"
      by (subst (asm) search.simps) (auto split: sum.splits)
    from "1.IH" [OF Descend fin desc rec] have "R nb (depth + 1) m1 w m2" .
    from desc [OF Descend rec this bk] show ?thesis .
  qed
qed

subsection \<open>Stored policies and masks are kept\<close>

lemma grows_Es: "grows m (m\<lparr>Es := es\<rparr>)"
  by (simp add: grows_def masks_expanded_def)

lemma grows_trans: "grows m m1 \<Longrightarrow> grows m1 m2 \<Longrightarrow> grows m m2"
  by (simp add: grows_def)

lemma grows_expand:
  assumes "expand E b s m = Inr (v, m')" "Ps m s = None"
  shows "grows m m'"
proof -
  from expand_Inr [OF assms(1)] obtain ps where
    "m' = m\<lparr>Ps := (Ps m)(s \<mapsto> ps), Vs := (Vs m)(s \<mapsto> getValidMoves (game E) b 1),
             Ns := (Ns m)(s \<mapsto> 0)\<rparr>" by blast
  with assms(2) show ?thesis by (auto simp: grows_def masks_expanded_def)
qed

lemma grows_backup:
  assumes "backup s a v m = Inr (v', m')"
  shows "grows m m'"
  using backup_Inr [OF assms] by (auto simp: grows_def masks_expanded_def)

lemma grows_pre_search_Done:
  assumes "pre_search E b depth m = Done (Inr (v, m'))"
  shows "grows m m'"
  using pre_search_Done [OF assms]
proof (elim disjE conjE)
  assume e: "expand E b (stringRepresentation (game E) b)
                 (m\<lparr>Es := (Es m)(stringRepresentation (game E) b \<mapsto> 0)\<rparr>) = Inr (v, m')"
    and p: "Ps m (stringRepresentation (game E) b) = None"
  from p have "Ps (m\<lparr>Es := (Es m)(stringRepresentation (game E) b \<mapsto> 0)\<rparr>)
                 (stringRepresentation (game E) b) = None" by simp
  from grows_expand [OF e this] show ?thesis
    by (rule grows_trans [OF grows_Es])
qed (simp_all add: grows_Es)

lemma grows_pre_search_Descend:
  assumes "pre_search E b depth m = Descend s a nb m1"
  shows "grows m m1"
  using pre_search_Descend [OF assms] by (auto simp: grows_Es)

lemma search_grows:
  assumes "search E b depth m = Inr (v, m')"
  shows "grows m m'"
proof (rule search_rule [where R = "\<lambda>b depth m v m'. grows m m'", OF _ _ assms])
  fix b depth m v m'
  assume "pre_search E b depth m = Done (Inr (v, m'))"
  then show "grows m m'" by (rule grows_pre_search_Done)
next
  fix b depth m s a nb m1 v m2 v' m'
  assume "pre_search E b depth m = Descend s a nb m1" "grows m1 m2" "backup s a v m2 = Inr (v', m')"
  then show "grows m m'"
    by (blast intro: grows_trans grows_pre_search_Descend grows_backup)
qed

subsection \<open>Visit counts\<close>

lemma finite_edge_actions:
  assumes "finite (dom (Nsa m))"
  shows "finite (edge_actions m s)"
proof -
  have "edge_actions m s = (\<lambda>a. (s, a)) -` dom (Nsa m)"
    by (auto simp: edge_actions_def)
  moreover have "inj (\<lambda>a::int. (s, a))" by (simp add: inj_on_def)
  ultimately show ?thesis using assms by (simp add: finite_vimageI)
qed

lemma visits_consistent_Es: "visits_consistent (m\<lparr>Es := es\<rparr>) = visits_consistent m"
  by (simp add: visits_consistent_def edge_actions_def edge_count_def)

lemma visits_consistent_empty: "visits_consistent empty_mcts"
  by (simp add: visits_consistent_def empty_mcts_def)

lemma visits_consistent_expand:
  assumes e: "expand E b s m = Inr (v, m')" and p: "Ps m s = None" and vc: "visits_consistent m"
  shows "visits_consistent m'"
proof -
  from expand_Inr [OF e] obtain ps where
    m': "m' = m\<lparr>Ps := (Ps m)(s \<mapsto> ps), Vs := (Vs m)(s \<mapsto> getValidMoves (game E) b 1),
             Ns := (Ns m)(s \<mapsto> 0)\<rparr>" by blast
  from vc have n2p: "\<And>t x. Nsa m (t, x) \<noteq> None \<Longrightarrow> Ps m t \<noteq> None"
    unfolding visits_consistent_def by blast
  from vc have sums: "\<And>t. Ps m t \<noteq> None \<Longrightarrow> Ns m t = Some (\<Sum>a\<in>edge_actions m t. edge_count m t a)"
    unfolding visits_consistent_def by blast
  from n2p p have empty: "edge_actions m s = {}"
    unfolding edge_actions_def by blast
  have acts: "edge_actions m' t = edge_actions m t" for t
    unfolding m' by (simp add: edge_actions_def)
  have cnt: "edge_count m' t x = edge_count m t x" for t x
    unfolding m' by (simp add: edge_count_def)
  have "finite (dom (Nsa m'))" using vc unfolding m' by (simp add: visits_consistent_def)
  moreover have "\<forall>e. Qsa m' e = None \<longrightarrow> Nsa m' e = None"
    using vc unfolding m' by (simp add: visits_consistent_def)
  moreover have "\<forall>t x. Nsa m' (t, x) \<noteq> None \<longrightarrow> Ps m' t \<noteq> None"
  proof (intro allI impI)
    fix t x assume "Nsa m' (t, x) \<noteq> None"
    then have "Nsa m (t, x) \<noteq> None" unfolding m' by simp
    from n2p [OF this] show "Ps m' t \<noteq> None" unfolding m' by simp
  qed
  moreover have "\<forall>t. Ps m' t \<noteq> None \<longrightarrow> Ns m' t = Some (\<Sum>x\<in>edge_actions m' t. edge_count m' t x)"
  proof (intro allI impI)
    fix t assume pt: "Ps m' t \<noteq> None"
    show "Ns m' t = Some (\<Sum>x\<in>edge_actions m' t. edge_count m' t x)"
    proof (cases "t = s")
      case True
      then show ?thesis unfolding acts cnt by (simp add: empty m')
    next
      case False
      with pt have "Ps m t \<noteq> None" unfolding m' by simp
      from sums [OF this] False show ?thesis unfolding acts cnt by (simp add: m')
    qed
  qed
  ultimately show ?thesis unfolding visits_consistent_def by (intro conjI)
qed

lemma visits_consistent_backup:
  assumes bk: "backup s a v m = Inr (v', m')" and p: "Ps m s \<noteq> None" and vc: "visits_consistent m"
  shows "visits_consistent m'"
proof -
  from backup_Inr [OF bk] obtain k q n where
    k: "Ns m s = Some k"
    and m': "m' = m\<lparr>Qsa := (Qsa m)((s, a) \<mapsto> q), Nsa := (Nsa m)((s, a) \<mapsto> n),
                     Ns := (Ns m)(s \<mapsto> k + 1)\<rparr>"
    and alt: "(Qsa m (s, a) = None \<and> q = v \<and> n = 1)
              \<or> (\<exists>q0 n0. Qsa m (s, a) = Some q0 \<and> Nsa m (s, a) = Some n0
                    \<and> q = (real n0 * q0 + v) / (real n0 + 1) \<and> n = n0 + 1)"
    by blast
  from vc have fin: "finite (dom (Nsa m))" by (simp add: visits_consistent_def)
  from vc have n2p: "\<And>t x. Nsa m (t, x) \<noteq> None \<Longrightarrow> Ps m t \<noteq> None"
    unfolding visits_consistent_def by blast
  from vc have q2n: "\<And>e. Qsa m e = None \<Longrightarrow> Nsa m e = None"
    unfolding visits_consistent_def by blast
  from vc have sums: "\<And>t. Ps m t \<noteq> None \<Longrightarrow> Ns m t = Some (\<Sum>a\<in>edge_actions m t. edge_count m t a)"
    unfolding visits_consistent_def by blast
  have fin_s: "finite (edge_actions m s)" by (rule finite_edge_actions [OF fin])
  from sums [OF p] k have sum_s: "k = (\<Sum>x\<in>edge_actions m s. edge_count m s x)"
    by simp
  have n_eq: "n = edge_count m s a + 1"
    using alt q2n [of "(s, a)"] by (auto simp: edge_count_def)
  have acts: "edge_actions m' s = insert a (edge_actions m s)"
    unfolding m' by (auto simp: edge_actions_def)
  have cnt_a: "edge_count m' s a = n" unfolding m' by (simp add: edge_count_def)
  have cnt_other: "edge_count m' t x = edge_count m t x" if "(t, x) \<noteq> (s, a)" for t x
    using that unfolding m' by (auto simp: edge_count_def)
  have acts_other: "edge_actions m' t = edge_actions m t" if "t \<noteq> s" for t
    using that unfolding m' by (auto simp: edge_actions_def)
  have zero_out: "edge_count m s a = 0" if "a \<notin> edge_actions m s"
    using that by (simp add: edge_actions_def edge_count_def)
  have "(\<Sum>x\<in>edge_actions m' s. edge_count m' s x) = k + 1"
  proof -
    have "(\<Sum>x\<in>insert a (edge_actions m s). edge_count m' s x)
          = edge_count m' s a + (\<Sum>x\<in>edge_actions m s - {a}. edge_count m' s x)"
      using fin_s by (simp add: sum.insert_remove)
    also have "(\<Sum>x\<in>edge_actions m s - {a}. edge_count m' s x)
               = (\<Sum>x\<in>edge_actions m s - {a}. edge_count m s x)"
      by (rule sum.cong) (simp_all add: cnt_other)
    also have "edge_count m' s a = edge_count m s a + 1" by (simp add: cnt_a n_eq)
    also have "edge_count m s a + 1 + (\<Sum>x\<in>edge_actions m s - {a}. edge_count m s x)
               = (\<Sum>x\<in>edge_actions m s. edge_count m s x) + 1"
    proof (cases "a \<in> edge_actions m s")
      case True
      with fin_s show ?thesis by (simp add: sum.remove)
    next
      case False
      then have "edge_actions m s - {a} = edge_actions m s" by blast
      with False show ?thesis by (simp add: zero_out)
    qed
    finally show ?thesis by (simp add: acts sum_s)
  qed
  then have ns_s: "Ns m' s = Some (\<Sum>x\<in>edge_actions m' s. edge_count m' s x)"
    unfolding m' by simp
  have ns_t: "Ns m' t = Some (\<Sum>x\<in>edge_actions m' t. edge_count m' t x)"
    if "t \<noteq> s" "Ps m' t \<noteq> None" for t
  proof -
    from that have "Ps m t \<noteq> None" unfolding m' by simp
    then have "Ns m t = Some (\<Sum>x\<in>edge_actions m t. edge_count m t x)"
      by (rule sums)
    moreover have "(\<Sum>x\<in>edge_actions m t. edge_count m' t x) = (\<Sum>x\<in>edge_actions m t. edge_count m t x)"
      using that(1) by (intro sum.cong) (simp_all add: cnt_other)
    moreover have "Ns m' t = Ns m t" using that(1) unfolding m' by simp
    ultimately show ?thesis using that(1) by (simp add: acts_other)
  qed
  have "finite (dom (Nsa m'))" using fin unfolding m' by simp
  moreover have "\<forall>e. Qsa m' e = None \<longrightarrow> Nsa m' e = None"
    using q2n unfolding m' by simp
  moreover have "\<forall>t x. Nsa m' (t, x) \<noteq> None \<longrightarrow> Ps m' t \<noteq> None"
  proof (intro allI impI)
    fix t x assume nz: "Nsa m' (t, x) \<noteq> None"
    show "Ps m' t \<noteq> None"
    proof (cases "(t, x) = (s, a)")
      case True with p show ?thesis unfolding m' by simp
    next
      case False
      with nz have "Nsa m (t, x) \<noteq> None" unfolding m' by (auto split: if_splits)
      from n2p [OF this] show ?thesis unfolding m' by simp
    qed
  qed
  moreover have "\<forall>t. Ps m' t \<noteq> None \<longrightarrow> Ns m' t = Some (\<Sum>x\<in>edge_actions m' t. edge_count m' t x)"
  proof (intro allI impI)
    fix t assume pt: "Ps m' t \<noteq> None"
    show "Ns m' t = Some (\<Sum>x\<in>edge_actions m' t. edge_count m' t x)"
    proof (cases "t = s")
      case True with ns_s show ?thesis by simp
    next
      case False from ns_t [OF this pt] show ?thesis .
    qed
  qed
  ultimately show ?thesis unfolding visits_consistent_def by (intro conjI)
qed

lemma search_visits_consistent:
  assumes "search E b depth m = Inr (v, m')" "visits_consistent m"
  shows "visits_consistent m'"
proof -
  have "visits_consistent m \<longrightarrow> visits_consistent m'"
  proof (rule search_rule [where R = "\<lambda>b depth m v m'. visits_consistent m \<longrightarrow> visits_consistent m'",
        OF _ _ assms(1)])
    fix b depth m v m'
    assume pd: "pre_search E b depth m = Done (Inr (v, m'))"
    show "visits_consistent m \<longrightarrow> visits_consistent m'"
      using pre_search_Done [OF pd]
      by (auto simp: visits_consistent_Es intro: visits_consistent_expand)
  next
    fix b depth m s a nb m1 v m2 v' m'
    assume pd: "pre_search E b depth m = Descend s a nb m1"
      and rec: "search E nb (depth + 1) m1 = Inr (v, m2)"
      and ih: "visits_consistent m1 \<longrightarrow> visits_consistent m2"
      and bk: "backup s a v m2 = Inr (v', m')"
    show "visits_consistent m \<longrightarrow> visits_consistent m'"
    proof
      assume vc: "visits_consistent m"
      from pre_search_Descend [OF pd] have m1: "m1 = m\<lparr>Es := (Es m)(s \<mapsto> 0)\<rparr>" and p: "Ps m s \<noteq> None"
        by blast+
      from vc m1 ih have vc2: "visits_consistent m2" by (simp add: visits_consistent_Es)
      from p m1 have "Ps m1 s \<noteq> None" by simp
      with search_grows [OF rec] have "Ps m2 s \<noteq> None" by (auto simp: grows_def)
      from visits_consistent_backup [OF bk this vc2] show "visits_consistent m'" .
    qed
  qed
  with assms(2) show ?thesis by simp
qed

subsection \<open>Evaluating the countdown game\<close>

lemma countdown_env_sel:
  "game (countdown_env n) = countdown_game"
  "nnet_predict (countdown_env n) b = ([1 / 2, 1 / 2], 1 / 4)"
  "cpuct (args (countdown_env n)) = 1"
  "numMCTSSims (args (countdown_env n)) = n"
  "max_tree_depth (countdown_env n) = 5"
  by (simp_all add: countdown_env_def max_tree_depth_def)

lemma countdown_game_sel:
  "stringRepresentation countdown_game b = countdown_key b"
  "getGameEnded countdown_game b p = (if b = 0 then - 1 else 0)"
  "getValidMoves countdown_game b p = [1 \<le> b, 2 \<le> b]"
  "getNextState countdown_game b p a =
     (if a = 0 \<or> a = 1 then Inr (b - nat (a + 1), - p) else Inl OracleError)"
  "getCanonicalForm countdown_game b p = b"
  "getActionSize countdown_game = 2"
  "isDarkChessGame countdown_game = False"
  by (simp_all add: countdown_game_def)

lemma upt_0_2: "[0..<2] = [0, 1]"
  by (simp add: upt_rec)

lemmas eval_search = search.simps pre_search_def select_action_def ucb_def Let_def
      expand_def stored_policy_def mask_policy_def add_valids_def np_broadcast_def backup_def
      normalize_def upt_0_2

lemma countdown_second_search: "\<exists>m'. search (countdown_env 2) 2 0 two_expanded = Inr (1 / 4, m')
   \<and> Ns m' ''2'' = Some 1 \<and> Nsa m' (''2'', 0) = Some 1 \<and> Qsa m' (''2'', 0) = Some (- (1 / 4))
   \<and> Ps m' ''1'' = Some [1, 0]"
  by (simp add: eval_search countdown_env_sel countdown_game_sel countdown_key_def
       two_expanded_def empty_mcts_def)

lemma sum_edge_counts_range:
  assumes fin: "finite (dom (Nsa m))"
    and range: "\<forall>a\<in>edge_actions m s. 0 \<le> a \<and> a < int n"
  shows "(\<Sum>a\<in>edge_actions m s. edge_count m s a) = (\<Sum>a<n. edge_count m s (int a))"
proof -
  have "(\<Sum>a<n. edge_count m s (int a)) = (\<Sum>x\<in>int ` {..<n}. edge_count m s x)"
    by (simp add: sum.reindex)
  also have "\<dots> = (\<Sum>x\<in>edge_actions m s. edge_count m s x)"
  proof (rule sum.mono_neutral_right)
    show "finite (int ` {..<n})" by simp
    show "edge_actions m s \<subseteq> int ` {..<n}"
    proof
      fix a assume "a \<in> edge_actions m s"
      with range have "0 \<le> a" "a < int n" by simp_all
      then have "nat a < n" "a = int (nat a)" by simp_all
      then show "a \<in> int ` {..<n}" by blast
    qed
    show "\<forall>i\<in>int ` {..<n} - edge_actions m s. edge_count m s i = 0"
      by (auto simp: edge_actions_def edge_count_def)
  qed
  finally show ?thesis by simp
qed

text \<open>
  Claim C8. The invariant \<open>visits_consistent\<close> holds of the empty tables and is kept
  by every call of \<open>search\<close> that returns. It says that, for every expanded
  position \<open>s\<close>, \<open>Ns[s]\<close> is the sum of \<open>Nsa[(s, a)]\<close> over the actions \<open>a\<close> recorded
  for \<open>s\<close>; when those actions all lie in the action space \<open>0..<n\<close>, this is the
  sum over the whole action space, unvisited edges counting 0.
\<close>

theorem node_count_is_sum_of_edge_counts:
  "visits_consistent empty_mcts
   \<and> (visits_consistent m \<and> search E b depth m = Inr (v, m') \<longrightarrow>
        visits_consistent m'
        \<and> (\<forall>s. Ps m' s \<noteq> None \<longrightarrow>
              Ns m' s = Some (\<Sum>a\<in>edge_actions m' s. edge_count m' s a))
        \<and> (\<forall>s n. Ps m' s \<noteq> None \<and> (\<forall>a\<in>edge_actions m' s. 0 \<le> a \<and> a < int n) \<longrightarrow>
              Ns m' s = Some (\<Sum>a<n. edge_count m' s (int a))))"
proof (intro conjI impI)
  show "visits_consistent empty_mcts" by (rule visits_consistent_empty)
next
  assume a: "visits_consistent m \<and> search E b depth m = Inr (v, m')"
  then have vc: "visits_consistent m'" by (blast intro: search_visits_consistent)
  then have sums: "\<And>s. Ps m' s \<noteq> None \<Longrightarrow>
              Ns m' s = Some (\<Sum>a\<in>edge_actions m' s. edge_count m' s a)"
    unfolding visits_consistent_def by blast
  from vc have fin: "finite (dom (Nsa m'))" by (simp add: visits_consistent_def)
  show "visits_consistent m'" by (rule vc)
  show "\<forall>s. Ps m' s \<noteq> None \<longrightarrow> Ns m' s = Some (\<Sum>a\<in>edge_actions m' s. edge_count m' s a)"
    using sums by blast
  show "\<forall>s n. Ps m' s \<noteq> None \<and> (\<forall>a\<in>edge_actions m' s. 0 \<le> a \<and> a < int n) \<longrightarrow>
              Ns m' s = Some (\<Sum>a<n. edge_count m' s (int a))"
  proof (intro allI impI)
    fix s n assume h: "Ps m' s \<noteq> None \<and> (\<forall>a\<in>edge_actions m' s. 0 \<le> a \<and> a < int n)"
    then have "Ns m' s = Some (\<Sum>a\<in>edge_actions m' s. edge_count m' s a)" by (simp add: sums)
    moreover from h have "(\<Sum>a\<in>edge_actions m' s. edge_count m' s a) = (\<Sum>a<n. edge_count m' s (int a))"
      by (intro sum_edge_counts_range [OF fin]) simp
    ultimately show "Ns m' s = Some (\<Sum>a<n. edge_count m' s (int a))" by simp
  qed
qed

lemma visits_consistent_two_expanded: "visits_consistent two_expanded"
  by (simp add: visits_consistent_def two_expanded_def empty_mcts_def edge_actions_def)

theorem node_count_is_sum_of_edge_counts_witness:
  "\<exists>m'. visits_consistent two_expanded
       \<and> search (countdown_env 2) 2 0 two_expanded = Inr (1 / 4, m')
       \<and> visits_consistent m'
       \<and> Nsa m' (''2'', 0) = Some 1
       \<and> Ns m' ''2'' = Some (\<Sum>a\<in>edge_actions m' ''2''. edge_count m' ''2'' a)
       \<and> Ns m' ''2'' = Some 1"
proof -
  have "\<exists>m'. search (countdown_env 2) 2 0 two_expanded = Inr (1 / 4, m')
          \<and> Ns m' ''2'' = Some 1 \<and> Nsa m' (''2'', 0) = Some 1 \<and> Ps m' ''2'' \<noteq> None"
    by (simp add: eval_search countdown_env_sel countdown_game_sel countdown_key_def
         two_expanded_def empty_mcts_def)
  then obtain m' where s: "search (countdown_env 2) 2 0 two_expanded = Inr (1 / 4, m')"
    and n: "Ns m' ''2'' = Some 1" and e: "Nsa m' (''2'', 0) = Some 1" and p: "Ps m' ''2'' \<noteq> None"
    by blast
  from node_count_is_sum_of_edge_counts [of two_expanded "countdown_env 2" 2 0 "1 / 4" m']
    visits_consistent_two_expanded s
  have "visits_consistent m'"
    and "\<forall>s. Ps m' s \<noteq> None \<longrightarrow> Ns m' s = Some (\<Sum>a\<in>edge_actions m' s. edge_count m' s a)"
    by blast+
  with p have "visits_consistent m'"
    "Ns m' ''2'' = Some (\<Sum>a\<in>edge_actions m' ''2''. edge_count m' ''2'' a)" by blast+
  with visits_consistent_two_expanded s n e show ?thesis by blast
qed

subsection \<open>Selected actions are legal\<close>

lemma edges_legalD:
  assumes "edges_legal E m"
  shows "masks_expanded m"
    and "\<And>s. Es m s = Some 0 \<Longrightarrow> Ps m s \<noteq> None"
    and "\<And>s vs. Vs m s = Some vs \<Longrightarrow> has_legal E vs"
    and "\<And>s a. Nsa m (s, a) \<noteq> None \<or> Qsa m (s, a) \<noteq> None \<Longrightarrow>
            \<exists>vs. Vs m s = Some vs \<and> legal_action E vs a"
  using assms unfolding edges_legal_def by blast+

lemma select_loop_result:
  "select_loop E m s valids as (cb, ba) = Inr (cb', a') \<Longrightarrow>
   (cb' = cb \<and> a' = ba \<and> (cb = None \<longrightarrow> (\<forall>i\<in>set as. \<not> valids ! i)))
   \<or> (\<exists>i\<in>set as. i < length valids \<and> valids ! i \<and> a' = int i)"
proof (induction as arbitrary: cb ba)
  case Nil
  then show ?case by simp
next
  case (Cons a as)
  from Cons.prems have alen: "a < length valids" by (auto split: if_splits)
  show ?case
  proof (cases "valids ! a")
    case False
    with Cons.prems alen have "select_loop E m s valids as (cb, ba) = Inr (cb', a')" by simp
    from Cons.IH [OF this] False show ?thesis by auto
  next
    case True
    with Cons.prems alen obtain u where u: "ucb E m s a = Inr u"
      by (auto split: sum.splits)
    show ?thesis
    proof (cases "exceeds u cb")
      case ex: True
      with Cons.prems alen True u
      have "select_loop E m s valids as (Some u, int a) = Inr (cb', a')" by simp
      from Cons.IH [OF this] True alen show ?thesis by auto
    next
      case nex: False
      then have "cb \<noteq> None" by (cases cb) auto
      from nex Cons.prems alen True u
      have "select_loop E m s valids as (cb, ba) = Inr (cb', a')" by simp
      from Cons.IH [OF this] \<open>cb \<noteq> None\<close> show ?thesis by auto
    qed
  qed
qed

lemma select_action_legal:
  assumes sel: "select_action E m s valids = Inr (cb, a)" and legal: "has_legal E valids"
  shows "legal_action E valids a"
proof -
  from legal obtain j where j: "j < getActionSize (game E)" "valids ! j"
    by (auto simp: has_legal_def)
  from select_loop_result [OF sel [unfolded select_action_def]] j
  obtain i where "i < getActionSize (game E)" "i < length valids" "valids ! i" "a = int i"
    by auto
  then show ?thesis by (simp add: legal_action_def)
qed

lemma depth_value_nonzero: "depth_value \<noteq> 0"
  by (simp add: depth_value_def)

lemma edges_legal_empty: "edges_legal E empty_mcts"
  by (simp add: edges_legal_def masks_expanded_def empty_mcts_def)

lemma edges_legal_Es:
  assumes "edges_legal E m" "e = 0 \<longrightarrow> Ps m s \<noteq> None"
  shows "edges_legal E (m\<lparr>Es := (Es m)(s \<mapsto> e)\<rparr>)"
  using assms by (simp add: edges_legal_def masks_expanded_def)

lemma edges_legal_expand:
  assumes e: "expand E b s m = Inr (v, m')" and p: "Ps m s = None"
    and hl: "has_legal E (getValidMoves (game E) b 1)"
    and el: "edges_legal E (m\<lparr>Es := es\<rparr>)"
    and es: "\<forall>t. t \<noteq> s \<longrightarrow> Es m t = Some 0 \<longrightarrow> Ps m t \<noteq> None"
  shows "edges_legal E m'"
proof -
  from expand_Inr [OF e] obtain ps where
    m': "m' = m\<lparr>Ps := (Ps m)(s \<mapsto> ps), Vs := (Vs m)(s \<mapsto> getValidMoves (game E) b 1),
             Ns := (Ns m)(s \<mapsto> 0)\<rparr>" by blast
  from edges_legalD(1) [OF el] have me: "masks_expanded m" by (simp add: masks_expanded_def)
  from edges_legalD(3) [OF el] have masks: "\<And>t vs. Vs m t = Some vs \<Longrightarrow> has_legal E vs"
    by simp
  from edges_legalD(4) [OF el]
  have edges: "\<And>t a. Nsa m (t, a) \<noteq> None \<or> Qsa m (t, a) \<noteq> None \<Longrightarrow>
            \<exists>vs. Vs m t = Some vs \<and> legal_action E vs a"
    by simp
  from me p have vnone: "Vs m s = None" unfolding masks_expanded_def by blast
  have "masks_expanded m'" using me unfolding m' masks_expanded_def by simp
  moreover have "\<forall>t. Es m' t = Some 0 \<longrightarrow> Ps m' t \<noteq> None"
    using es unfolding m' by simp
  moreover have "\<forall>t vs. Vs m' t = Some vs \<longrightarrow> has_legal E vs"
    using masks hl unfolding m' by simp
  moreover have "\<forall>t a. Nsa m' (t, a) \<noteq> None \<or> Qsa m' (t, a) \<noteq> None \<longrightarrow>
            (\<exists>vs. Vs m' t = Some vs \<and> legal_action E vs a)"
  proof (intro allI impI)
    fix t a assume "Nsa m' (t, a) \<noteq> None \<or> Qsa m' (t, a) \<noteq> None"
    then have "Nsa m (t, a) \<noteq> None \<or> Qsa m (t, a) \<noteq> None" unfolding m' by simp
    from edges [OF this] obtain vs where vs: "Vs m t = Some vs" "legal_action E vs a" by blast
    with vnone have "t \<noteq> s" by auto
    with vs show "\<exists>vs. Vs m' t = Some vs \<and> legal_action E vs a" unfolding m' by simp
  qed
  ultimately show ?thesis unfolding edges_legal_def by (intro conjI)
qed

lemma edges_legal_backup:
  assumes bk: "backup s a v m = Inr (v', m')" and el: "edges_legal E m"
    and la: "\<exists>vs. Vs m s = Some vs \<and> legal_action E vs a"
  shows "edges_legal E m'"
proof -
  from backup_Inr [OF bk] obtain k q n where
    m': "m' = m\<lparr>Qsa := (Qsa m)((s, a) \<mapsto> q), Nsa := (Nsa m)((s, a) \<mapsto> n),
                     Ns := (Ns m)(s \<mapsto> k + 1)\<rparr>"
    by blast
  from el have edges: "\<And>t x. Nsa m (t, x) \<noteq> None \<or> Qsa m (t, x) \<noteq> None \<Longrightarrow>
            \<exists>vs. Vs m t = Some vs \<and> legal_action E vs x"
    unfolding edges_legal_def by blast
  have "masks_expanded m'" using el unfolding m' edges_legal_def masks_expanded_def by simp
  moreover have "\<forall>t. Es m' t = Some 0 \<longrightarrow> Ps m' t \<noteq> None"
    using el unfolding m' edges_legal_def by simp
  moreover have "\<forall>t vs. Vs m' t = Some vs \<longrightarrow> has_legal E vs"
    using el unfolding m' edges_legal_def by simp
  moreover have "\<forall>t x. Nsa m' (t, x) \<noteq> None \<or> Qsa m' (t, x) \<noteq> None \<longrightarrow>
            (\<exists>vs. Vs m' t = Some vs \<and> legal_action E vs x)"
  proof (intro allI impI)
    fix t x assume h: "Nsa m' (t, x) \<noteq> None \<or> Qsa m' (t, x) \<noteq> None"
    show "\<exists>vs. Vs m' t = Some vs \<and> legal_action E vs x"
    proof (cases "(t, x) = (s, a)")
      case True
      with la show ?thesis unfolding m' by simp
    next
      case False
      with h have "Nsa m (t, x) \<noteq> None \<or> Qsa m (t, x) \<noteq> None"
        unfolding m' by (auto split: if_splits)
      from edges [OF this] show ?thesis unfolding m' by simp
    qed
  qed
  ultimately show ?thesis unfolding edges_legal_def by (intro conjI)
qed

lemma memo_zero:
  assumes "memo E b m = 0" "Ps m (stringRepresentation (game E) b) = None" "edges_legal E m"
  shows "Es m (stringRepresentation (game E) b) = None \<and> getGameEnded (game E) b 1 = 0"
proof (cases "Es m (stringRepresentation (game E) b)")
  case None
  with assms(1) show ?thesis by (simp add: memo_def)
next
  case (Some e)
  with assms(1) have "Es m (stringRepresentation (game E) b) = Some 0" by (simp add: memo_def)
  with assms(3) have "Ps m (stringRepresentation (game E) b) \<noteq> None"
    unfolding edges_legal_def by blast
  with assms(2) show ?thesis by simp
qed

lemma search_edges_legal:
  assumes res: "search E b depth m = Inr (v, m')" and ol: "oracle_legal E" and el: "edges_legal E m"
  shows "edges_legal E m'"
proof -
  have "edges_legal E m \<longrightarrow> edges_legal E m'"
  proof (rule search_rule [where R = "\<lambda>b depth m v m'. edges_legal E m \<longrightarrow> edges_legal E m'",
        OF _ _ res])
    fix b depth m v m'
    assume pd: "pre_search E b depth m = Done (Inr (v, m'))"
    let ?s = "stringRepresentation (game E) b"
    show "edges_legal E m \<longrightarrow> edges_legal E m'"
    proof
      assume el: "edges_legal E m"
      from pre_search_Done [OF pd] show "edges_legal E m'"
      proof (elim disjE conjE)
        assume "m' = m\<lparr>Es := (Es m)(?s \<mapsto> depth_value)\<rparr>"
        with el show ?thesis by (simp add: edges_legal_Es depth_value_nonzero)
      next
        assume "memo E b m \<noteq> 0" "m' = m\<lparr>Es := (Es m)(?s \<mapsto> memo E b m)\<rparr>"
        with el show ?thesis by (simp add: edges_legal_Es)
      next
        assume z: "memo E b m = 0" and p: "Ps m ?s = None"
          and e: "expand E b ?s (m\<lparr>Es := (Es m)(?s \<mapsto> 0)\<rparr>) = Inr (v, m')"
        from memo_zero [OF z p el] have en: "Es m ?s = None" and g: "getGameEnded (game E) b 1 = 0"
          by simp_all
        from g ol have hl: "has_legal E (getValidMoves (game E) b 1)" by (simp add: oracle_legal_def)
        let ?m1 = "m\<lparr>Es := (Es m)(?s \<mapsto> 0)\<rparr>"
        have p1: "Ps ?m1 ?s = None" using p by simp
        have es1: "\<forall>t. t \<noteq> ?s \<longrightarrow> Es ?m1 t = Some 0 \<longrightarrow> Ps ?m1 t \<noteq> None"
          using el unfolding edges_legal_def by simp
        have el1: "edges_legal E (?m1\<lparr>Es := Es m\<rparr>)" using el by simp
        from edges_legal_expand [OF e p1 hl el1 es1] show ?thesis .
      qed
    qed
  next
    fix b depth m s a nb m1 v m2 v' m'
    assume pd: "pre_search E b depth m = Descend s a nb m1"
      and rec: "search E nb (depth + 1) m1 = Inr (v, m2)"
      and ih: "edges_legal E m1 \<longrightarrow> edges_legal E m2"
      and bk: "backup s a v m2 = Inr (v', m')"
    show "edges_legal E m \<longrightarrow> edges_legal E m'"
    proof
      assume el: "edges_legal E m"
      from pre_search_Descend [OF pd] obtain valids cb where
        m1: "m1 = m\<lparr>Es := (Es m)(s \<mapsto> 0)\<rparr>" and p: "Ps m s \<noteq> None"
        and vs: "Vs m s = Some valids" and sel: "select_action E m1 s valids = Inr (cb, a)"
        by blast
      from el p have el1: "edges_legal E m1" unfolding m1 by (simp add: edges_legal_Es)
      with ih have el2: "edges_legal E m2" by simp
      from el vs have "has_legal E valids" unfolding edges_legal_def by blast
      from select_action_legal [OF sel this] have la: "legal_action E valids a" .
      from el1 have "masks_expanded m1" by (simp add: edges_legal_def)
      moreover from vs have "Vs m1 s = Some valids" unfolding m1 by simp
      ultimately have "Vs m2 s = Some valids"
        using search_grows [OF rec] unfolding grows_def by blast
      with la have "\<exists>vs. Vs m2 s = Some vs \<and> legal_action E vs a" by blast
      from edges_legal_backup [OF bk el2 this] show "edges_legal E m'" .
    qed
  qed
  with el show ?thesis by simp
qed

lemma policies_normalized_Ps: "Ps m' = Ps m \<Longrightarrow> policies_normalized m \<Longrightarrow> policies_normalized m'"
  by (simp add: policies_normalized_def)

lemma policies_normalized_empty: "policies_normalized empty_mcts"
  by (simp add: policies_normalized_def empty_mcts_def)

lemma expand_stored:
  assumes "expand E b s m = Inr (v, m')"
  shows "\<exists>ps. stored_policy (policy_of E b) (getValidMoves (game E) b 1) = Inr ps
              \<and> Ps m' = (Ps m)(s \<mapsto> ps)"
  using assms
  by (auto simp: expand_def policy_of_def Let_def split: prod.splits sum.splits if_splits)

lemma policies_normalized_expand:
  assumes e: "expand E b s m = Inr (v, m')" and ev: "evaluator_ok E"
    and hl: "has_legal E (getValidMoves (game E) b 1)" and pn: "policies_normalized m"
  shows "policies_normalized m'"
proof -
  let ?p = "policy_of E b"
  let ?valids = "getValidMoves (game E) b 1"
  from ev have nonneg: "\<forall>x\<in>set ?p. 0 \<le> x" and len: "length ?p = length ?valids"
    unfolding evaluator_ok_def by blast+
  from hl have legal: "\<exists>i<length ?valids. ?valids ! i" unfolding has_legal_def by blast
  from stored_policy_props [OF nonneg len legal] obtain ps where
    sp: "stored_policy ?p ?valids = Inr ps" and l: "length ps = length ?valids"
    and n: "\<forall>i<length ?valids. 0 \<le> ps ! i" and one: "sum_list ps = 1" by blast
  from expand_stored [OF e] sp have ps': "Ps m' = (Ps m)(s \<mapsto> ps)" by simp
  have nn: "\<forall>x\<in>set ps. 0 \<le> x"
  proof
    fix x assume "x \<in> set ps"
    then obtain i where "i < length ps" "ps ! i = x" by (auto simp: in_set_conv_nth)
    with n l show "0 \<le> x" by auto
  qed
  show ?thesis
    unfolding policies_normalized_def
  proof (intro allI impI)
    fix t qs assume q: "Ps m' t = Some qs"
    show "(\<forall>x\<in>set qs. 0 \<le> x) \<and> sum_list qs = 1"
    proof (cases "t = s")
      case True
      with q ps' have "qs = ps" by simp
      with nn one show ?thesis by simp
    next
      case False
      with q ps' have "Ps m t = Some qs" by simp
      with pn show ?thesis unfolding policies_normalized_def by blast
    qed
  qed
qed

lemma search_policies_normalized:
  assumes res: "search E b depth m = Inr (v, m')" and ol: "oracle_legal E"
    and ev: "evaluator_ok E" and el: "edges_legal E m" and pn: "policies_normalized m"
  shows "policies_normalized m'"
proof -
  have "edges_legal E m \<and> policies_normalized m \<longrightarrow> policies_normalized m'"
  proof (rule search_rule [where R = "\<lambda>b depth m v m'.
           edges_legal E m \<and> policies_normalized m \<longrightarrow> policies_normalized m'", OF _ _ res])
    fix b depth m v m'
    assume pd: "pre_search E b depth m = Done (Inr (v, m'))"
    let ?s = "stringRepresentation (game E) b"
    show "edges_legal E m \<and> policies_normalized m \<longrightarrow> policies_normalized m'"
    proof
      assume h: "edges_legal E m \<and> policies_normalized m"
      then have el: "edges_legal E m" and pn: "policies_normalized m" by simp_all
      from pre_search_Done [OF pd] show "policies_normalized m'"
      proof (elim disjE conjE)
        assume "m' = m\<lparr>Es := (Es m)(?s \<mapsto> depth_value)\<rparr>"
        then have "Ps m' = Ps m" by simp
        from policies_normalized_Ps [OF this pn] show ?thesis .
      next
        assume "m' = m\<lparr>Es := (Es m)(?s \<mapsto> memo E b m)\<rparr>"
        then have "Ps m' = Ps m" by simp
        from policies_normalized_Ps [OF this pn] show ?thesis .
      next
        assume z: "memo E b m = 0" and p: "Ps m ?s = None"
          and e: "expand E b ?s (m\<lparr>Es := (Es m)(?s \<mapsto> 0)\<rparr>) = Inr (v, m')"
        from memo_zero [OF z p el] have "getGameEnded (game E) b 1 = 0" by simp
        with ol have hl: "has_legal E (getValidMoves (game E) b 1)" by (simp add: oracle_legal_def)
        have "Ps (m\<lparr>Es := (Es m)(?s \<mapsto> 0)\<rparr>) = Ps m" by simp
        from policies_normalized_Ps [OF this pn]
        have "policies_normalized (m\<lparr>Es := (Es m)(?s \<mapsto> 0)\<rparr>)" .
        from policies_normalized_expand [OF e ev hl this] show ?thesis .
      qed
    qed
  next
    fix b depth m s a nb m1 v m2 v' m'
    assume pd: "pre_search E b depth m = Descend s a nb m1"
      and ih: "edges_legal E m1 \<and> policies_normalized m1 \<longrightarrow> policies_normalized m2"
      and bk: "backup s a v m2 = Inr (v', m')"
    show "edges_legal E m \<and> policies_normalized m \<longrightarrow> policies_normalized m'"
    proof
      assume h: "edges_legal E m \<and> policies_normalized m"
      then have el: "edges_legal E m" and pn: "policies_normalized m" by simp_all
      from pre_search_Descend [OF pd] have m1: "m1 = m\<lparr>Es := (Es m)(s \<mapsto> 0)\<rparr>"
        and p: "Ps m s \<noteq> None" by blast+
      from el p have "edges_legal E m1" unfolding m1 by (simp add: edges_legal_Es)
      moreover have "Ps m1 = Ps m" unfolding m1 by simp
      from policies_normalized_Ps [OF this pn] have "policies_normalized m1" .
      ultimately have pn2: "policies_normalized m2" using ih by simp
      from backup_Inr [OF bk] have "Ps m' = Ps m2" by auto
      from policies_normalized_Ps [OF this pn2] show "policies_normalized m'" .
    qed
  qed
  with el pn show ?thesis by simp
qed

text \<open>
  Claim C10. When the mask handed to the selection has a legal action and the stored
  policies are normalized (so that every score is a number), the selection returns a
  legal action, never the initial \<open>-1\<close>. Hence, for an oracle that gives
  every position that is not terminal a legal action and an evaluator whose policies
  have no negative entry and the length of the mask, every call of \<open>search\<close> that
  returns keeps the invariants \<open>edges_legal\<close> and \<open>policies_normalized\<close>, which hold of
  the empty tables: each key of \<open>Nsa\<close> and \<open>Qsa\<close> is an action legal in the mask
  stored for its position, and that mask is the one written when the position was
  expanded, since stored masks never change. That every stored policy sums to 1
  says that no expansion of the run divided by a zero sum.
\<close>

theorem selected_actions_are_legal:
  "(has_legal E valids \<and> policies_normalized m
      \<and> select_action E m s valids = Inr (cb, a) \<longrightarrow>
      legal_action E valids a \<and> a \<noteq> - 1)
   \<and> edges_legal E empty_mcts \<and> policies_normalized empty_mcts
   \<and> (oracle_legal E \<and> evaluator_ok E \<and> edges_legal E m \<and> policies_normalized m
        \<and> search E b depth m = Inr (v, m') \<longrightarrow>
        edges_legal E m' \<and> policies_normalized m'
        \<and> (\<forall>t vs. Vs m t = Some vs \<longrightarrow> Vs m' t = Some vs)
        \<and> (\<forall>t x. Nsa m' (t, x) \<noteq> None \<or> Qsa m' (t, x) \<noteq> None \<longrightarrow>
              (\<exists>vs. Vs m' t = Some vs \<and> legal_action E vs x)))"
proof (intro conjI impI)
  assume h: "has_legal E valids \<and> policies_normalized m
      \<and> select_action E m s valids = Inr (cb, a)"
  then show la: "legal_action E valids a" by (blast intro: select_action_legal)
  then show "a \<noteq> - 1" by (auto simp: legal_action_def)
next
  show "edges_legal E empty_mcts" by (rule edges_legal_empty)
next
  show "policies_normalized empty_mcts" by (rule policies_normalized_empty)
next
  assume h: "oracle_legal E \<and> evaluator_ok E \<and> edges_legal E m \<and> policies_normalized m
        \<and> search E b depth m = Inr (v, m')"
  then have res: "search E b depth m = Inr (v, m')" and ol: "oracle_legal E"
    and ev: "evaluator_ok E" and el: "edges_legal E m" and pn: "policies_normalized m"
    by simp_all
  from search_edges_legal [OF res ol el] show el': "edges_legal E m'" .
  from search_policies_normalized [OF res ol ev el pn] show "policies_normalized m'" .
  from edges_legalD(1) [OF el] search_grows [OF res]
  show "\<forall>t vs. Vs m t = Some vs \<longrightarrow> Vs m' t = Some vs"
    unfolding grows_def by blast
  from edges_legalD(4) [OF el']
  show "\<forall>t x. Nsa m' (t, x) \<noteq> None \<or> Qsa m' (t, x) \<noteq> None \<longrightarrow>
              (\<exists>vs. Vs m' t = Some vs \<and> legal_action E vs x)" by blast
qed

lemma oracle_legal_countdown: "oracle_legal (countdown_env n)"
proof -
  have "has_legal (countdown_env n) [1 \<le> b, 2 \<le> b]" if "b \<noteq> 0" for b :: nat
    unfolding has_legal_def using that
    by (intro exI [of _ 0]) (simp add: countdown_env_sel countdown_game_sel)
  then show ?thesis
    by (simp add: oracle_legal_def countdown_env_sel countdown_game_sel)
qed

lemma evaluator_ok_countdown: "evaluator_ok (countdown_env n)"
  by (simp add: evaluator_ok_def policy_of_def countdown_env_sel countdown_game_sel)

lemma edges_legal_two_expanded: "edges_legal (countdown_env n) two_expanded"
proof -
  have "has_legal (countdown_env n) [True, True]"
    unfolding has_legal_def by (intro exI [of _ 0]) (simp add: countdown_env_sel countdown_game_sel)
  then show ?thesis
    by (simp add: edges_legal_def masks_expanded_def two_expanded_def empty_mcts_def)
qed

lemma policies_normalized_two_expanded: "policies_normalized two_expanded"
  by (simp add: policies_normalized_def two_expanded_def empty_mcts_def)

theorem selected_actions_are_legal_witness:
  "\<exists>cb m'. has_legal (countdown_env 2) [True, True]
       \<and> select_action (countdown_env 2) two_expanded ''2'' [True, True] = Inr (cb, 0)
       \<and> legal_action (countdown_env 2) [True, True] 0
       \<and> oracle_legal (countdown_env 2)
       \<and> evaluator_ok (countdown_env 2)
       \<and> edges_legal (countdown_env 2) two_expanded
       \<and> policies_normalized two_expanded
       \<and> search (countdown_env 2) 2 0 two_expanded = Inr (1 / 4, m')
       \<and> Nsa m' (''2'', 0) = Some 1
       \<and> Ps m' ''1'' = Some [1, 0]
       \<and> edges_legal (countdown_env 2) m'
       \<and> policies_normalized m'"
proof -
  let ?E = "countdown_env 2"
  have hl: "has_legal ?E [True, True]"
    unfolding has_legal_def by (intro exI [of _ 0]) (simp add: countdown_env_sel countdown_game_sel)
  have "\<exists>cb. select_action ?E two_expanded ''2'' [True, True] = Inr (cb, 0)"
    by (simp add: eval_search countdown_env_sel countdown_game_sel two_expanded_def empty_mcts_def)
  then obtain cb where sel: "select_action ?E two_expanded ''2'' [True, True] = Inr (cb, 0)" by blast
  have "\<exists>m'. search ?E 2 0 two_expanded = Inr (1 / 4, m') \<and> Nsa m' (''2'', 0) = Some 1
          \<and> Ps m' ''1'' = Some [1, 0]"
    by (simp add: eval_search countdown_env_sel countdown_game_sel countdown_key_def
         two_expanded_def empty_mcts_def)
  then obtain m' where s: "search ?E 2 0 two_expanded = Inr (1 / 4, m')"
    and e: "Nsa m' (''2'', 0) = Some 1" and p: "Ps m' ''1'' = Some [1, 0]" by blast
  note inst = selected_actions_are_legal
    [of ?E "[True, True]" two_expanded "''2''" cb 0 2 0 "1 / 4" m']
  from inst hl policies_normalized_two_expanded sel
  have la: "legal_action ?E [True, True] 0" by blast
  from inst oracle_legal_countdown [of 2] evaluator_ok_countdown [of 2]
    edges_legal_two_expanded [of 2] policies_normalized_two_expanded s
  have "edges_legal ?E m'" "policies_normalized m'" by blast+
  with hl sel la oracle_legal_countdown [of 2] evaluator_ok_countdown [of 2]
    edges_legal_two_expanded [of 2] policies_normalized_two_expanded s e p
  show ?thesis by blast
qed

subsection \<open>Evaluating the one-position game\<close>

lemma loop_env_sel:
  "game (loop_env legal n d) = loop_game legal"
  "nnet_predict (loop_env legal n d) b = ([1], 0)"
  "cpuct (args (loop_env legal n d)) = 1"
  "numMCTSSims (args (loop_env legal n d)) = n"
  "max_tree_depth (loop_env legal n d) = d"
  by (simp_all add: loop_env_def max_tree_depth_def)

lemma loop_game_sel:
  "stringRepresentation (loop_game legal) b = ''k''"
  "getGameEnded (loop_game legal) b p = 0"
  "getValidMoves (loop_game legal) b p = [legal]"
  "getNextState (loop_game legal) b p a = Inr (b, - 1)"
  "getCanonicalForm (loop_game legal) b p = b"
  "getActionSize (loop_game legal) = 1"
  "isDarkChessGame (loop_game legal) = False"
  by (simp_all add: loop_game_def)

lemma loop_first_search:
  "search (loop_env legal n 1) () 0 empty_mcts = Inr (0, loop_expanded legal)"
  by (cases legal)
     (simp_all add: eval_search loop_env_sel loop_game_sel loop_expanded_def empty_mcts_def)

lemma loop_second_search_True:
  "\<exists>m'. search (loop_env True n 1) () 0 (loop_expanded True) = Inr (depth_value, m')
     \<and> Es m' ''k'' = Some depth_value \<and> Nsa m' (''k'', 0) = Some 1"
  by (simp add: eval_search loop_env_sel loop_game_sel loop_expanded_def empty_mcts_def)

lemma loop_second_search_False:
  "\<exists>m'. search (loop_env False n 1) () 0 (loop_expanded False) = Inr (depth_value, m')
     \<and> Nsa m' (''k'', - 1) = Some 1 \<and> Ns m' ''k'' = Some 1 \<and> Nsa m' (''k'', 0) = None"
  by (simp add: eval_search loop_env_sel loop_game_sel loop_expanded_def empty_mcts_def)

subsection \<open>Memoized outcomes\<close>

lemma search_path_Done: "pre_search E b depth m = Done r \<Longrightarrow> search_path E b depth m = []"
  by (subst search_path.simps) simp

lemma search_path_Descend:
  "pre_search E b depth m = Descend s a nb m1 \<Longrightarrow>
   search_path E b depth m = (s, a) # search_path E nb (depth + 1) m1"
  by (subst search_path.simps) simp

lemma memo_cached: "Es m (stringRepresentation (game E) b) = Some x \<Longrightarrow> memo E b m = x"
  by (simp add: memo_def)

lemma search_Es_kept:
  assumes res: "search E b depth m = Inr (v, m')"
  shows "\<forall>k x. Es m k = Some x \<longrightarrow>
           Es m' k = Some x
           \<or> (Es m' k = Some depth_value
              \<and> max_tree_depth E \<le> depth + int (length (search_path E b depth m)))"
proof (rule search_rule [where R = "\<lambda>b depth m v m'. \<forall>k x. Es m k = Some x \<longrightarrow>
           Es m' k = Some x
           \<or> (Es m' k = Some depth_value
              \<and> max_tree_depth E \<le> depth + int (length (search_path E b depth m)))", OF _ _ res])
  fix b depth m v m'
  assume pd: "pre_search E b depth m = Done (Inr (v, m'))"
  let ?s = "stringRepresentation (game E) b"
  show "\<forall>k x. Es m k = Some x \<longrightarrow>
           Es m' k = Some x
           \<or> (Es m' k = Some depth_value
              \<and> max_tree_depth E \<le> depth + int (length (search_path E b depth m)))"
  proof (intro allI impI)
    fix k x assume kx: "Es m k = Some x"
    from pre_search_Done [OF pd]
    show "Es m' k = Some x
           \<or> (Es m' k = Some depth_value
              \<and> max_tree_depth E \<le> depth + int (length (search_path E b depth m)))"
    proof (elim disjE conjE)
      assume "max_tree_depth E \<le> depth" "m' = m\<lparr>Es := (Es m)(?s \<mapsto> depth_value)\<rparr>"
      with kx show ?thesis by (simp add: search_path_Done [OF pd])
    next
      assume "m' = m\<lparr>Es := (Es m)(?s \<mapsto> memo E b m)\<rparr>"
      with kx show ?thesis by (auto simp: memo_cached)
    next
      assume z: "memo E b m = 0"
        and e: "expand E b ?s (m\<lparr>Es := (Es m)(?s \<mapsto> 0)\<rparr>) = Inr (v, m')"
      from expand_Inr [OF e] have "Es m' = (Es m)(?s \<mapsto> 0)" by auto
      with kx z show ?thesis by (auto simp: memo_cached)
    qed
  qed
next
  fix b depth m s a nb m1 v m2 v' m'
  assume pd: "pre_search E b depth m = Descend s a nb m1"
    and ih: "\<forall>k x. Es m1 k = Some x \<longrightarrow>
           Es m2 k = Some x
           \<or> (Es m2 k = Some depth_value
              \<and> max_tree_depth E \<le> depth + 1 + int (length (search_path E nb (depth + 1) m1)))"
    and bk: "backup s a v m2 = Inr (v', m')"
  from pre_search_Descend [OF pd] have m1: "m1 = m\<lparr>Es := (Es m)(s \<mapsto> 0)\<rparr>"
    and s: "s = stringRepresentation (game E) b" and z: "memo E b m = 0" by blast+
  from backup_Inr [OF bk] have es': "Es m' = Es m2" by auto
  show "\<forall>k x. Es m k = Some x \<longrightarrow>
           Es m' k = Some x
           \<or> (Es m' k = Some depth_value
              \<and> max_tree_depth E \<le> depth + int (length (search_path E b depth m)))"
  proof (intro allI impI)
    fix k x assume kx: "Es m k = Some x"
    have "Es m1 k = Some x"
    proof (cases "k = s")
      case True
      with kx s z have "x = 0" by (simp add: memo_cached)
      with True show ?thesis unfolding m1 by simp
    next
      case False
      with kx show ?thesis unfolding m1 by simp
    qed
    with ih have "Es m2 k = Some x
           \<or> (Es m2 k = Some depth_value
              \<and> max_tree_depth E \<le> depth + 1 + int (length (search_path E nb (depth + 1) m1)))"
      by blast
    then show "Es m' k = Some x
           \<or> (Es m' k = Some depth_value
              \<and> max_tree_depth E \<le> depth + int (length (search_path E b depth m)))"
      unfolding es' search_path_Descend [OF pd] by auto
  qed
qed

lemma search_terminal_cached:
  assumes "depth < max_tree_depth E" "Es m (stringRepresentation (game E) b) = Some x" "x \<noteq> 0"
  shows "search E b depth m = Inr (- x, m)"
proof -
  from assms(2) have "memo E b m = x" by (rule memo_cached)
  moreover from assms(2) have "m\<lparr>Es := (Es m)(stringRepresentation (game E) b \<mapsto> x)\<rparr> = m"
    by (simp add: fun_upd_idem)
  ultimately have "pre_search E b depth m = Done (Inr (- x, m))"
    using assms(3) by (simp add: pre_search_below [OF assms(1)] Let_def)
  then show ?thesis by (subst search.simps) simp
qed

text \<open>
  Claim C5, as the code has it. The terminal check never changes an entry of \<open>Es\<close>
  that is already there: after a call of \<open>search\<close> that returns, an entry present
  before is unchanged unless the chain of recursive calls ended in the depth guard,
  which overwrote it with \<open>1e-4\<close>. A visit below the depth limit to a key whose
  cached value is not 0 returns the negated cached value and leaves the tables as
  they were.
\<close>

theorem memo_changed_only_by_depth_guard:
  "(search E b depth m = Inr (v, m') \<and> Es m k = Some x \<longrightarrow>
      Es m' k = Some x
      \<or> (Es m' k = Some depth_value
         \<and> max_tree_depth E \<le> depth + int (length (search_path E b depth m))))
   \<and> (depth < max_tree_depth E \<and> Es m (stringRepresentation (game E) b) = Some x \<and> x \<noteq> 0 \<longrightarrow>
        search E b depth m = Inr (- x, m))"
  using search_Es_kept [of E b depth m v m'] search_terminal_cached [of depth E m b x]
  by blast

theorem memo_changed_only_by_depth_guard_witness:
  "\<exists>m'. search (loop_env True 2 1) () 0 (loop_expanded True) = Inr (depth_value, m')
        \<and> Es (loop_expanded True) ''k'' = Some 0
        \<and> Es m' ''k'' = Some depth_value
        \<and> max_tree_depth (loop_env True 2 1)
            \<le> 0 + int (length (search_path (loop_env True 2 1) () 0 (loop_expanded True)))
        \<and> 0 < max_tree_depth (countdown_env 2)
        \<and> Es terminal_cached (stringRepresentation (game (countdown_env 2)) 0) = Some (- 1)
        \<and> search (countdown_env 2) 0 0 terminal_cached = Inr (- (- 1), terminal_cached)"
proof -
  from loop_second_search_True [of 2] obtain m' where
    s: "search (loop_env True 2 1) () 0 (loop_expanded True) = Inr (depth_value, m')"
    and e': "Es m' ''k'' = Some depth_value" by blast
  have e: "Es (loop_expanded True) ''k'' = Some 0" by (simp add: loop_expanded_def)
  have ne: "Es m' ''k'' \<noteq> Some 0" using e' by (simp add: depth_value_def)
  from memo_changed_only_by_depth_guard
    [of "loop_env True 2 1" "()" 0 "loop_expanded True" depth_value m' "''k''" 0] s e ne
  have g: "max_tree_depth (loop_env True 2 1)
            \<le> 0 + int (length (search_path (loop_env True 2 1) () 0 (loop_expanded True)))"
    by blast
  have d: "0 < max_tree_depth (countdown_env 2)" by (simp add: countdown_env_sel)
  have c: "Es terminal_cached (stringRepresentation (game (countdown_env 2)) 0) = Some (- 1)"
    by (simp add: terminal_cached_def countdown_env_sel countdown_game_sel countdown_key_def)
  from memo_changed_only_by_depth_guard
    [of "countdown_env 2" 0 0 terminal_cached 0 terminal_cached "''0''" "- 1"] d c
  have t: "search (countdown_env 2) 0 0 terminal_cached = Inr (- (- 1), terminal_cached)"
    by simp
  from s e e' g d c t show ?thesis by blast
qed

text \<open>
  Claim C5 as stated says that no later call, the depth guard included, changes a
  memoized value. In the one-position game with depth limit 1 the first simulation
  memoizes 0 for the root key; the second descends into the same position at depth 1,
  where the depth guard overwrites the entry with \<open>1 / 10 ^ 4\<close>.
\<close>

theorem memo_written_once_counterexample:
  "search (loop_env True 2 1) () 0 empty_mcts = Inr (0, loop_expanded True)
   \<and> Es (loop_expanded True) ''k'' = Some 0
   \<and> map_sum id (\<lambda>r. Es (snd r) ''k'') (search (loop_env True 2 1) () 0 (loop_expanded True))
       = Inr (Some (1 / 10 ^ 4))
   \<and> (0 :: real) \<noteq> 1 / 10 ^ 4"
proof -
  from loop_second_search_True [of 2] obtain m' where
    s: "search (loop_env True 2 1) () 0 (loop_expanded True) = Inr (depth_value, m')"
    and e': "Es m' ''k'' = Some depth_value" by blast
  then have "map_sum id (\<lambda>r. Es (snd r) ''k'') (search (loop_env True 2 1) () 0 (loop_expanded True))
       = Inr (Some (1 / 10 ^ 4))" by (simp add: depth_value_def)
  moreover have "Es (loop_expanded True) ''k'' = Some 0" by (simp add: loop_expanded_def)
  ultimately show ?thesis using loop_first_search [of True 2] by simp
qed

subsection \<open>A position without legal actions\<close>

lemma run_sims_two:
  "run_sims E b 2 m =
     (case search E b 0 m of
        Inl e \<Rightarrow> Inl e
      | Inr (v, m1) \<Rightarrow> (case search E b 0 m1 of Inl e \<Rightarrow> Inl e | Inr (w, m2) \<Rightarrow> Inr m2))"
  by (simp add: numeral_2_eq_2 split: sum.splits prod.splits)

text \<open>
  Claim C9, as the code has it. At an expanded position that is not terminal and
  whose stored mask marks no action of the action space legal, \<open>search\<close> raises
  nothing of its own: the selection leaves \<open>best_act\<close> at \<open>-1\<close> and the call
  hands \<open>-1\<close> to the oracle's \<open>getNextState\<close>. It fails only if the oracle fails
  on that index; otherwise it recurses into the state the oracle returns and backs
  the result up under the edge \<open>(s, -1)\<close>.
\<close>

theorem no_legal_action_hands_sentinel_to_oracle:
  assumes below: "depth < max_tree_depth E"
    and not_ended: "memo E b m = 0"
    and expanded: "Ps m (stringRepresentation (game E) b) \<noteq> None"
    and mask: "Vs m (stringRepresentation (game E) b) = Some valids"
    and none_legal: "\<forall>a<getActionSize (game E). a < length valids \<and> \<not> valids ! a"
  shows "search E b depth m =
           (case getNextState (game E) b 1 (- 1) of
              Inl err \<Rightarrow> Inl err
            | Inr (next_s, next_player) \<Rightarrow>
                (case search E (getCanonicalForm (game E) next_s next_player) (depth + 1)
                        (m\<lparr>Es := (Es m)(stringRepresentation (game E) b \<mapsto> 0)\<rparr>) of
                   Inl e \<Rightarrow> Inl e
                 | Inr (v, m2) \<Rightarrow> backup (stringRepresentation (game E) b) (- 1) v m2))"
proof -
  let ?s = "stringRepresentation (game E) b"
  let ?m1 = "m\<lparr>Es := (Es m)(?s \<mapsto> 0)\<rparr>"
  have sel: "select_action E ?m1 ?s valids = Inr (None, - 1)"
    by (rule select_action_none [OF none_legal])
  have pre: "pre_search E b depth m =
               (case getNextState (game E) b 1 (- 1) of
                  Inl err \<Rightarrow> Done (Inl err)
                | Inr (next_s, next_player) \<Rightarrow>
                    Descend ?s (- 1) (getCanonicalForm (game E) next_s next_player) ?m1)"
  proof -
    from expanded obtain ps where "Ps m ?s = Some ps" by blast
    with not_ended mask sel show ?thesis
      by (simp add: pre_search_below [OF below] Let_def)
  qed
  show ?thesis
    by (subst search.simps) (simp add: pre split: sum.splits prod.splits)
qed

theorem no_legal_action_hands_sentinel_to_oracle_witness:
  "\<exists>m'. search (loop_env False 2 1) () 0 (loop_expanded False) =
          (case getNextState (game (loop_env False 2 1)) () 1 (- 1) of
              Inl err \<Rightarrow> Inl err
            | Inr (next_s, next_player) \<Rightarrow>
                (case search (loop_env False 2 1)
                        (getCanonicalForm (game (loop_env False 2 1)) next_s next_player) (0 + 1)
                        ((loop_expanded False)\<lparr>Es := (Es (loop_expanded False))
                           (stringRepresentation (game (loop_env False 2 1)) () \<mapsto> 0)\<rparr>) of
                   Inl e \<Rightarrow> Inl e
                 | Inr (v, m2) \<Rightarrow>
                     backup (stringRepresentation (game (loop_env False 2 1)) ()) (- 1) v m2))
        \<and> search (loop_env False 2 1) () 0 (loop_expanded False) = Inr (depth_value, m')
        \<and> Nsa m' (''k'', - 1) = Some 1"
proof -
  let ?E = "loop_env False 2 1"
  have below: "0 < max_tree_depth ?E" by (simp add: loop_env_sel)
  have not_ended: "memo ?E () (loop_expanded False) = 0"
    by (simp add: memo_def loop_env_sel loop_game_sel loop_expanded_def)
  have expanded: "Ps (loop_expanded False) (stringRepresentation (game ?E) ()) \<noteq> None"
    by (simp add: loop_env_sel loop_game_sel loop_expanded_def)
  have mask: "Vs (loop_expanded False) (stringRepresentation (game ?E) ()) = Some [False]"
    by (simp add: loop_env_sel loop_game_sel loop_expanded_def)
  have none_legal: "\<forall>a<getActionSize (game ?E). a < length [False] \<and> \<not> [False] ! a"
    by (simp add: loop_env_sel loop_game_sel)
  note eq = no_legal_action_hands_sentinel_to_oracle
    [OF below not_ended expanded mask none_legal]
  from loop_second_search_False [of 2] obtain m' where
    "search ?E () 0 (loop_expanded False) = Inr (depth_value, m')"
    "Nsa m' (''k'', - 1) = Some 1" by blast
  with eq show ?thesis by blast
qed

text \<open>
  Claim C9 as stated says the search stops with a failure. In the one-position game
  whose only action is illegal and whose oracle accepts every index, two simulations
  complete, record a visit of the edge \<open>(''k'', -1)\<close>, and \<open>getActionProb\<close> at
  temperature 0 returns all the mass on action 0, which is illegal. (The policy stored
  for the position is the result of dividing by a zero sum; no step reads it.)
\<close>

theorem no_legal_action_counterexample:
  "getGameEnded (game (loop_env False 2 1)) () 1 = 0
   \<and> getValidMoves (game (loop_env False 2 1)) () 1 = [False]
   \<and> map_sum id (\<lambda>m. (Nsa m (''k'', - 1), Nsa m (''k'', 0), Ns m ''k''))
        (run_sims (loop_env False 2 1) () 2 empty_mcts) = Inr (Some 1, None, Some 1)
   \<and> map_sum id fst (getActionProb (loop_env False 2 1) () 0 empty_mcts) = Inr [1]"
proof -
  let ?E = "loop_env False 2 1"
  from loop_second_search_False [of 2] obtain m' where
    s: "search ?E () 0 (loop_expanded False) = Inr (depth_value, m')"
    and f: "Nsa m' (''k'', - 1) = Some 1" "Ns m' ''k'' = Some 1" "Nsa m' (''k'', 0) = None" by blast
  have r: "run_sims ?E () 2 empty_mcts = Inr m'"
    by (simp add: run_sims_two loop_first_search s)
  have c: "counts_of ?E () m' = [0]"
    using f by (simp add: counts_of_def loop_env_sel loop_game_sel)
  have "getActionProb ?E () 0 empty_mcts = Inr ([1], m')"
    by (simp add: getActionProb_def loop_env_sel r c action_probs_def argmax_def)
  with r f show ?thesis by (simp add: loop_env_sel loop_game_sel)
qed

subsection \<open>Backup\<close>

lemma search_leaf_Done: "pre_search E b depth m = Done r \<Longrightarrow> search_leaf E b depth m = r"
  by (subst search_leaf.simps) simp

lemma search_leaf_Descend:
  "pre_search E b depth m = Descend s a nb m1 \<Longrightarrow>
   search_leaf E b depth m = search_leaf E nb (depth + 1) m1"
  by (subst search_leaf.simps) simp

lemma backup_first:
  "Ns m s = Some k \<Longrightarrow> Qsa m (s, a) = None \<Longrightarrow>
   backup s a v m = Inr (- v, m\<lparr>Qsa := (Qsa m)((s, a) \<mapsto> v), Nsa := (Nsa m)((s, a) \<mapsto> 1),
                                Ns := (Ns m)(s \<mapsto> k + 1)\<rparr>)"
  by (simp add: backup_def)

lemma backup_again:
  "Ns m s = Some k \<Longrightarrow> Qsa m (s, a) = Some q \<Longrightarrow> Nsa m (s, a) = Some n \<Longrightarrow>
   backup s a v m =
     Inr (- v, m\<lparr>Qsa := (Qsa m)((s, a) \<mapsto> (real n * q + v) / (real n + 1)),
                  Nsa := (Nsa m)((s, a) \<mapsto> n + 1), Ns := (Ns m)(s \<mapsto> k + 1)\<rparr>)"
  by (simp add: backup_def)

lemma search_path_backed_up:
  assumes res: "search E b depth m = Inr (v, m')"
  shows "path_backed_up E b depth m v m'"
proof (rule search_rule [where R = "path_backed_up E", OF _ _ res])
  fix b depth m v m'
  assume pd: "pre_search E b depth m = Done (Inr (v, m'))"
  show "path_backed_up E b depth m v m'"
    unfolding path_backed_up_def search_path_Done [OF pd] search_leaf_Done [OF pd]
    using pre_search_Done [OF pd]
    by (auto dest!: expand_Inr)
next
  fix b depth m s a nb m1 w m2 v' m'
  assume pd: "pre_search E b depth m = Descend s a nb m1"
    and ih: "path_backed_up E nb (depth + 1) m1 w m2"
    and bk: "backup s a w m2 = Inr (v', m')"
  let ?p1 = "search_path E nb (depth + 1) m1"
  from pre_search_Descend [OF pd] have m1: "m1 = m\<lparr>Es := (Es m)(s \<mapsto> 0)\<rparr>" by blast
  from ih obtain ml where
    leaf: "search_leaf E nb (depth + 1) m1 = Inr ((- 1) ^ length ?p1 * w, ml)"
    and frame: "\<And>e. e \<notin> set ?p1 \<Longrightarrow> Qsa m2 e = Qsa m1 e \<and> Nsa m2 e = Nsa m1 e"
    and fresh: "distinct ?p1 \<and> (\<forall>e\<in>set ?p1. Qsa m1 e = None) \<Longrightarrow>
           (\<forall>i<length ?p1. Nsa m2 (?p1 ! i) = Some 1 \<and> Qsa m2 (?p1 ! i) = Some (- ((- 1) ^ i * w)))"
    unfolding path_backed_up_def Let_def by blast
  from backup_Inr [OF bk] obtain k q n where
    v': "v' = - w"
    and m': "m' = m2\<lparr>Qsa := (Qsa m2)((s, a) \<mapsto> q), Nsa := (Nsa m2)((s, a) \<mapsto> n),
                     Ns := (Ns m2)(s \<mapsto> k + 1)\<rparr>"
    and alt: "(Qsa m2 (s, a) = None \<and> q = w \<and> n = 1)
              \<or> (\<exists>q0 n0. Qsa m2 (s, a) = Some q0 \<and> Nsa m2 (s, a) = Some n0
                    \<and> q = (real n0 * q0 + w) / (real n0 + 1) \<and> n = n0 + 1)"
    by blast
  have other: "Qsa m' e = Qsa m2 e \<and> Nsa m' e = Nsa m2 e" if "e \<noteq> (s, a)" for e
    using that unfolding m' by simp
  have c1: "\<exists>ml. search_leaf E b depth m = Inr ((- 1) ^ length ((s, a) # ?p1) * v', ml)"
    using leaf unfolding search_leaf_Descend [OF pd] v' by simp
  have c2: "\<forall>e. e \<notin> set ((s, a) # ?p1) \<longrightarrow> Qsa m' e = Qsa m e \<and> Nsa m' e = Nsa m e"
  proof (intro allI impI)
    fix e assume "e \<notin> set ((s, a) # ?p1)"
    then have "e \<noteq> (s, a)" "e \<notin> set ?p1" by simp_all
    with other [of e] frame [of e] show "Qsa m' e = Qsa m e \<and> Nsa m' e = Nsa m e"
      unfolding m1 by simp
  qed
  have c3: "\<forall>i<length ((s, a) # ?p1). Nsa m' (((s, a) # ?p1) ! i) = Some 1
              \<and> Qsa m' (((s, a) # ?p1) ! i) = Some (- ((- 1) ^ i * v'))"
    if d: "distinct ((s, a) # ?p1) \<and> (\<forall>e\<in>set ((s, a) # ?p1). Qsa m e = None)"
  proof -
    from d have notin: "(s, a) \<notin> set ?p1" and d1: "distinct ?p1"
      and q0: "Qsa m (s, a) = None" and q1: "\<forall>e\<in>set ?p1. Qsa m1 e = None"
      unfolding m1 by simp_all
    from fresh d1 q1 have ih1: "\<forall>i<length ?p1. Nsa m2 (?p1 ! i) = Some 1
             \<and> Qsa m2 (?p1 ! i) = Some (- ((- 1) ^ i * w))" by blast
    from frame [OF notin] q0 have "Qsa m2 (s, a) = None" unfolding m1 by simp
    with alt have qn: "q = w" "n = 1" by auto
    show ?thesis
    proof (intro allI impI)
      fix i assume i: "i < length ((s, a) # ?p1)"
      show "Nsa m' (((s, a) # ?p1) ! i) = Some 1
              \<and> Qsa m' (((s, a) # ?p1) ! i) = Some (- ((- 1) ^ i * v'))"
      proof (cases i)
        case 0
        then show ?thesis unfolding m' by (simp add: qn v')
      next
        case (Suc j)
        with i have j: "j < length ?p1" by simp
        then have "?p1 ! j \<in> set ?p1" by simp
        with notin have "?p1 ! j \<noteq> (s, a)" by auto
        from other [OF this] ih1 j show ?thesis by (simp add: Suc v')
      qed
    qed
  qed
  show "path_backed_up E b depth m v' m'"
    unfolding path_backed_up_def Let_def search_path_Descend [OF pd]
    using c1 c2 c3 by blast
qed

lemma sign_flip: "i < n \<Longrightarrow> - ((- 1) ^ i * ((- 1) ^ n * (r::real))) = (- 1) ^ (n - 1 - i) * r"
proof -
  assume "i < n"
  then have n: "n = Suc (n - 1 - i) + i" by simp
  have "(- 1 :: real) ^ i * (- 1) ^ i = 1" by (simp add: power_mult_distrib [symmetric])
  have "- ((- 1) ^ i * ((- 1) ^ n * r)) = - ((- 1) ^ i * ((- 1) ^ (Suc (n - 1 - i) + i) * r))"
    using n by simp
  also have "\<dots> = (- 1) ^ (n - 1 - i) * ((- 1) ^ i * (- 1) ^ i) * r"
    by (simp only: power_add power_Suc) simp
  also have "\<dots> = (- 1) ^ (n - 1 - i) * r"
    by (simp add: power_mult_distrib [symmetric])
  finally show ?thesis .
qed

text \<open>
  Claim C2. Let one call of \<open>search\<close> return, and let the edges of the path it
  descended be pairwise distinct and without a value before the call. Then the last
  call of the chain returned some \<open>r\<close> (the negated value of the terminal position, of
  the newly expanded leaf, or of the depth guard), every edge of the path has visit
  count 1, and the edge \<open>i\<close> of a path of \<open>n\<close> edges has value \<open>(-1) ^ (n - 1 - i) * r\<close>:
  \<open>r\<close> at the last edge, with one sign flip per ply above it. In general the backup
  of \<open>w\<close> into edge \<open>(s, a)\<close> returns \<open>-w\<close>, adds 1 to \<open>Ns[s]\<close>, and either sets
  \<open>Qsa = w\<close>, \<open>Nsa = 1\<close> (no value before) or replaces \<open>Qsa\<close> by the running mean
  \<open>(Nsa * Qsa + w) / (Nsa + 1)\<close> and adds 1 to \<open>Nsa\<close>.
\<close>

theorem backup_along_fresh_path:
  "(search E b depth m = Inr (v, m')
      \<and> distinct (search_path E b depth m)
      \<and> (\<forall>e\<in>set (search_path E b depth m). Qsa m e = None) \<longrightarrow>
      (\<exists>r ml. search_leaf E b depth m = Inr (r, ml)
         \<and> v = (- 1) ^ length (search_path E b depth m) * r
         \<and> (\<forall>i<length (search_path E b depth m).
               Nsa m' (search_path E b depth m ! i) = Some 1
               \<and> Qsa m' (search_path E b depth m ! i)
                   = Some ((- 1) ^ (length (search_path E b depth m) - 1 - i) * r))))
   \<and> (Ns mb s = Some k \<and> Qsa mb (s, a) = None \<longrightarrow>
        backup s a w mb =
          Inr (- w, mb\<lparr>Qsa := (Qsa mb)((s, a) \<mapsto> w), Nsa := (Nsa mb)((s, a) \<mapsto> 1),
                        Ns := (Ns mb)(s \<mapsto> k + 1)\<rparr>))
   \<and> (Ns mb s = Some k \<and> Qsa mb (s, a) = Some q \<and> Nsa mb (s, a) = Some n \<longrightarrow>
        backup s a w mb =
          Inr (- w, mb\<lparr>Qsa := (Qsa mb)((s, a) \<mapsto> (real n * q + w) / (real n + 1)),
                        Nsa := (Nsa mb)((s, a) \<mapsto> n + 1), Ns := (Ns mb)(s \<mapsto> k + 1)\<rparr>))"
proof (intro conjI impI)
  let ?p = "search_path E b depth m"
  assume h: "search E b depth m = Inr (v, m') \<and> distinct ?p \<and> (\<forall>e\<in>set ?p. Qsa m e = None)"
  then have res: "search E b depth m = Inr (v, m')" by simp
  from search_path_backed_up [OF res] h obtain ml where
    leaf: "search_leaf E b depth m = Inr ((- 1) ^ length ?p * v, ml)"
    and edges: "\<forall>i<length ?p. Nsa m' (?p ! i) = Some 1 \<and> Qsa m' (?p ! i) = Some (- ((- 1) ^ i * v))"
    unfolding path_backed_up_def Let_def by blast
  let ?r = "(- 1) ^ length ?p * v"
  have v: "v = (- 1) ^ length ?p * ?r"
    by (simp add: power_mult_distrib [symmetric] mult.assoc [symmetric])
  have "\<forall>i<length ?p. Nsa m' (?p ! i) = Some 1
          \<and> Qsa m' (?p ! i) = Some ((- 1) ^ (length ?p - 1 - i) * ?r)"
  proof (intro allI impI)
    fix i assume i: "i < length ?p"
    have "- ((- 1) ^ i * v) = - ((- 1) ^ i * ((- 1) ^ length ?p * ?r))" using v by simp
    also have "\<dots> = (- 1) ^ (length ?p - 1 - i) * ?r" using i by (rule sign_flip)
    finally show "Nsa m' (?p ! i) = Some 1
          \<and> Qsa m' (?p ! i) = Some ((- 1) ^ (length ?p - 1 - i) * ?r)"
      using edges i by simp
  qed
  with leaf v show "\<exists>r ml. search_leaf E b depth m = Inr (r, ml)
         \<and> v = (- 1) ^ length ?p * r
         \<and> (\<forall>i<length ?p. Nsa m' (?p ! i) = Some 1
               \<and> Qsa m' (?p ! i) = Some ((- 1) ^ (length ?p - 1 - i) * r))"
    by blast
next
  assume "Ns mb s = Some k \<and> Qsa mb (s, a) = None"
  then show "backup s a w mb =
          Inr (- w, mb\<lparr>Qsa := (Qsa mb)((s, a) \<mapsto> w), Nsa := (Nsa mb)((s, a) \<mapsto> 1),
                        Ns := (Ns mb)(s \<mapsto> k + 1)\<rparr>)"
    by (simp add: backup_first)
next
  assume "Ns mb s = Some k \<and> Qsa mb (s, a) = Some q \<and> Nsa mb (s, a) = Some n"
  then show "backup s a w mb =
          Inr (- w, mb\<lparr>Qsa := (Qsa mb)((s, a) \<mapsto> (real n * q + w) / (real n + 1)),
                        Nsa := (Nsa mb)((s, a) \<mapsto> n + 1), Ns := (Ns mb)(s \<mapsto> k + 1)\<rparr>)"
    by (simp add: backup_again)
qed

lemmas countdown_eval = eval_search countdown_env_sel countdown_game_sel countdown_key_def
  both_expanded_def empty_mcts_def

lemma both_path:
  "search_path (countdown_env 2) 2 0 both_expanded = [(''2'', 0), (''1'', 0)]"
  by (simp add: search_path.simps countdown_eval)

lemma both_leaf:
  "\<exists>ml. search_leaf (countdown_env 2) 2 0 both_expanded = Inr (1, ml)"
  by (simp add: search_leaf.simps countdown_eval)

lemma both_search:
  "\<exists>m'. search (countdown_env 2) 2 0 both_expanded = Inr (1, m')"
  by (simp add: countdown_eval)

theorem backup_along_fresh_path_witness:
  "\<exists>m' ml. search (countdown_env 2) 2 0 both_expanded = Inr (1, m')
      \<and> search_path (countdown_env 2) 2 0 both_expanded = [(''2'', 0), (''1'', 0)]
      \<and> search_leaf (countdown_env 2) 2 0 both_expanded = Inr (1, ml)
      \<and> Nsa m' (''2'', 0) = Some 1 \<and> Qsa m' (''2'', 0) = Some (- 1)
      \<and> Nsa m' (''1'', 0) = Some 1 \<and> Qsa m' (''1'', 0) = Some 1
      \<and> backup ''2'' 0 (1 / 2) (two_expanded\<lparr>Qsa := [(''2'', 0) \<mapsto> - 1],
                                               Nsa := [(''2'', 0) \<mapsto> 1]\<rparr>)
          = Inr (- (1 / 2),
                 two_expanded\<lparr>Qsa := [(''2'', 0) \<mapsto> (real 1 * (- 1) + 1 / 2) / (real 1 + 1)],
                              Nsa := [(''2'', 0) \<mapsto> 1 + 1],
                              Ns := (Ns two_expanded)(''2'' \<mapsto> 0 + 1)\<rparr>)"
proof -
  let ?E = "countdown_env 2"
  let ?p = "search_path ?E 2 0 both_expanded"
  from both_search obtain m' where s: "search ?E 2 0 both_expanded = Inr (1, m')" by blast
  from both_leaf obtain ml where l: "search_leaf ?E 2 0 both_expanded = Inr (1, ml)" by blast
  have d: "distinct ?p" by (simp add: both_path)
  have f: "\<forall>e\<in>set ?p. Qsa both_expanded e = None"
    by (simp add: both_path both_expanded_def empty_mcts_def)
  let ?mb = "two_expanded\<lparr>Qsa := [(''2'', 0) \<mapsto> - 1], Nsa := [(''2'', 0) \<mapsto> 1]\<rparr>"
  have hb: "Ns ?mb ''2'' = Some 0 \<and> Qsa ?mb (''2'', 0) = Some (- 1) \<and> Nsa ?mb (''2'', 0) = Some 1"
    by (simp add: two_expanded_def)
  note inst = backup_along_fresh_path
    [of ?E 2 0 both_expanded 1 m' ?mb "''2''" 0 0 "1 / 2" "- 1" 1]
  from inst s d f obtain r ml' where
    "search_leaf ?E 2 0 both_expanded = Inr (r, ml')"
    and e: "\<forall>i<length ?p. Nsa m' (?p ! i) = Some 1
               \<and> Qsa m' (?p ! i) = Some ((- 1) ^ (length ?p - 1 - i) * r)"
    by blast
  with l have r: "r = 1" by simp
  have i0: "0 < length ?p" and i1: "1 < length ?p" by (simp_all add: both_path)
  from e [rule_format, OF i0] have e0: "Nsa m' (''2'', 0) = Some 1" "Qsa m' (''2'', 0) = Some (- 1)"
    by (simp_all add: both_path r)
  from e [rule_format, OF i1] have e1: "Nsa m' (''1'', 0) = Some 1" "Qsa m' (''1'', 0) = Some 1"
    by (simp_all add: both_path r)
  from inst hb have bk: "backup ''2'' 0 (1 / 2) ?mb
          = Inr (- (1 / 2),
                 ?mb\<lparr>Qsa := (Qsa ?mb)((''2'', 0) \<mapsto> (real 1 * (- 1) + 1 / 2) / (real 1 + 1)),
                      Nsa := (Nsa ?mb)((''2'', 0) \<mapsto> 1 + 1),
                      Ns := (Ns ?mb)(''2'' \<mapsto> 0 + 1)\<rparr>)"
    by blast
  have "backup ''2'' 0 (1 / 2) ?mb
          = Inr (- (1 / 2),
                 two_expanded\<lparr>Qsa := [(''2'', 0) \<mapsto> (real 1 * (- 1) + 1 / 2) / (real 1 + 1)],
                              Nsa := [(''2'', 0) \<mapsto> 1 + 1],
                              Ns := (Ns two_expanded)(''2'' \<mapsto> 0 + 1)\<rparr>)"
    unfolding bk by (simp add: two_expanded_def)
  with s l e0 e1 both_path show ?thesis by blast
qed

subsection \<open>The action distribution\<close>

lemma foldr_max_ge: "x \<in> set xs \<Longrightarrow> x \<le> foldr max xs (0::nat)"
  by (induction xs) auto

lemma foldr_max_mem: "xs \<noteq> [] \<Longrightarrow> foldr max xs (0::nat) \<in> set xs"
proof (induction xs)
  case Nil
  then show ?case by simp
next
  case (Cons x xs)
  show ?case
  proof (cases "xs = []")
    case True
    then show ?thesis by simp
  next
    case False
    with Cons.IH have "foldr max xs 0 \<in> set xs" by simp
    then have "max x (foldr max xs 0) \<in> insert x (set xs)" by (metis insertCI max_def)
    then show ?thesis by simp
  qed
qed

lemma sum_list_one_hot: "i < n \<Longrightarrow> sum_list ((replicate n (0::real))[i := 1]) = 1"
proof (induction n arbitrary: i)
  case 0
  then show ?case by simp
next
  case (Suc n)
  then show ?case by (cases i) (simp_all add: sum_list_replicate)
qed

lemma argmax_props:
  assumes "xs \<noteq> []"
  shows "\<exists>i. argmax xs = Inr i \<and> i < length xs \<and> xs ! i = foldr max xs 0"
proof -
  let ?M = "foldr max xs 0"
  let ?i = "length (takeWhile (\<lambda>x. x < ?M) xs)"
  have "?i < length xs"
  proof (rule ccontr)
    assume "\<not> ?i < length xs"
    with length_takeWhile_le [of "\<lambda>x. x < ?M" xs] have "?i = length xs" by simp
    then have "takeWhile (\<lambda>x. x < ?M) xs = xs"
      by (metis takeWhile_eq_take take_all order_refl)
    then have "\<forall>x\<in>set xs. x < ?M" by (simp add: takeWhile_eq_all_conv)
    with foldr_max_mem [OF assms] show False by blast
  qed
  moreover from this have "\<not> xs ! ?i < ?M" by (rule nth_length_takeWhile)
  moreover from \<open>?i < length xs\<close> have "xs ! ?i \<le> ?M" by (simp add: foldr_max_ge)
  ultimately show ?thesis using assms by (simp add: argmax_def)
qed

lemma double_overflow_small: "x \<le> 2 \<Longrightarrow> \<not> double_overflow x"
proof -
  assume x: "x \<le> 2"
  have a: "(2::real) ^ 971 \<le> 2 ^ 1024" by (rule power_increasing) simp_all
  have b: "(2::real) ^ 2 \<le> 2 ^ 970" by (rule power_increasing) simp_all
  have c: "(2::real) ^ 971 = 2 * 2 ^ 970"
    using power_Suc [of "2::real" 970] by (simp only: eval_nat_numeral(3) [symmetric])
  from a b c x have "x < 2 ^ 1024 - 2 ^ 970" by simp
  then show ?thesis by (simp add: double_overflow_def)
qed

lemma double_overflow_mono: "x \<le> y \<Longrightarrow> \<not> double_overflow y \<Longrightarrow> \<not> double_overflow x"
  by (simp add: double_overflow_def)

lemma member_le_sum_list_real:
  "x \<in> set xs \<Longrightarrow> \<forall>y\<in>set xs. (0::real) \<le> y \<Longrightarrow> x \<le> sum_list xs"
proof (induction xs)
  case Nil
  then show ?case by simp
next
  case (Cons z zs)
  from Cons.prems(2) have nn: "0 \<le> z" "\<forall>y\<in>set zs. 0 \<le> y" by simp_all
  then have s: "0 \<le> sum_list zs" by (simp add: sum_list_nonneg)
  show ?case
  proof (cases "x = z")
    case True
    with s show ?thesis by simp
  next
    case False
    with Cons.prems(1) have "x \<in> set zs" by simp
    from Cons.IH [OF this nn(2)] nn(1) show ?thesis by simp
  qed
qed

lemma map_err_pow:
  assumes "0 < e"
    and "\<forall>x\<in>set counts. \<not> double_overflow (real x) \<and> \<not> double_overflow (real x powr e)"
  shows "map_err (\<lambda>x. py_pow (real x) e) counts = Inr (map (\<lambda>x. real x powr e) counts)"
  using assms by (induction counts) (simp_all add: py_pow_def)

lemma map_err_pow_zero:
  assumes "0 < e" and "\<forall>c\<in>set counts. c = 0"
  shows "map_err (\<lambda>x. py_pow (real x) e) counts = Inr (map (\<lambda>x. 0) counts)"
  using assms by (induction counts) (simp_all add: py_pow_def double_overflow_small)

lemma normalized_props:
  assumes "\<forall>x\<in>set cs. (0::real) \<le> x" "0 < sum_list cs"
  shows "(\<forall>p\<in>set (map (\<lambda>x. x / sum_list cs) cs). 0 \<le> p)
         \<and> sum_list (map (\<lambda>x. x / sum_list cs) cs) = 1"
proof
  show "\<forall>p\<in>set (map (\<lambda>x. x / sum_list cs) cs). 0 \<le> p"
    using assms by (auto intro: divide_nonneg_pos)
  have "sum_list (map (\<lambda>x. x / sum_list cs) cs) = sum_list cs / sum_list cs"
    by (rule sum_list_map_divide)
  with assms(2) show "sum_list (map (\<lambda>x. x / sum_list cs) cs) = 1" by simp
qed

lemma action_probs_valid:
  assumes temp: "0 \<le> temp"
    and range: "temp = 0 \<or> in_double_range counts temp"
    and visited: "\<exists>a<length counts. 0 < counts ! a"
  shows "\<exists>probs. action_probs counts temp = Inr probs \<and> length probs = length counts
           \<and> (\<forall>p\<in>set probs. 0 \<le> p) \<and> sum_list probs = 1
           \<and> (\<forall>a<length counts. counts ! a = 0 \<longrightarrow> probs ! a = 0)"
proof (cases "temp = 0")
  case True
  from visited obtain a where a: "a < length counts" "0 < counts ! a" by blast
  then have ne: "counts \<noteq> []" by auto
  from argmax_props [OF ne] obtain i where
    am: "argmax counts = Inr i" and i: "i < length counts"
    and mx: "counts ! i = foldr max counts 0" by blast
  from a have "counts ! a \<le> foldr max counts 0" by (simp add: foldr_max_ge)
  with a mx have pos: "0 < counts ! i" by simp
  let ?probs = "(replicate (length counts) (0::real))[i := 1]"
  have ap: "action_probs counts temp = Inr ?probs"
    using True am by (simp add: action_probs_def)
  have "\<forall>p\<in>set ?probs. 0 \<le> p"
  proof
    fix p assume "p \<in> set ?probs"
    then have "p \<in> insert 1 (set (replicate (length counts) 0))"
      using set_update_subset_insert by fastforce
    then show "0 \<le> p" by auto
  qed
  moreover have "sum_list ?probs = 1" using i by (rule sum_list_one_hot)
  moreover have "\<forall>a<length counts. counts ! a = 0 \<longrightarrow> ?probs ! a = 0"
  proof (intro allI impI)
    fix a assume "a < length counts" "counts ! a = 0"
    with pos have "a \<noteq> i" by auto
    with \<open>a < length counts\<close> show "?probs ! a = 0" by simp
  qed
  ultimately show ?thesis using ap by simp
next
  case False
  with temp have e: "0 < 1 / temp" by simp
  from False range have rng: "in_double_range counts temp" by simp
  define f where "f = (\<lambda>x::nat. real x powr (1 / temp))"
  have f0: "f 0 = 0" and fpos: "\<And>x. 0 < x \<Longrightarrow> 0 < f x" and fnn: "\<And>x. 0 \<le> f x"
    by (simp_all add: f_def)
  have nonneg: "\<forall>x\<in>set (map f counts). 0 \<le> x" using fnn by auto
  from rng have sum_ok: "\<not> double_overflow (sum_list (map f counts))"
    and base_ok: "\<forall>x\<in>set counts. \<not> double_overflow (real x)"
    unfolding in_double_range_def f_def by simp_all
  have pow_ok: "\<forall>x\<in>set counts. \<not> double_overflow (f x)"
  proof
    fix x assume "x \<in> set counts"
    then have "f x \<in> set (map f counts)" by simp
    from member_le_sum_list_real [OF this nonneg] sum_ok
    show "\<not> double_overflow (f x)" by (rule double_overflow_mono)
  qed
  have me: "map_err (\<lambda>x. py_pow (real x) (1 / temp)) counts = Inr (map f counts)"
    unfolding f_def using base_ok pow_ok [unfolded f_def] by (intro map_err_pow [OF e]) simp
  from visited obtain a where a: "a < length counts" "0 < counts ! a" by blast
  then have gt: "0 < map f counts ! a" by (simp add: fpos)
  from a have "a < length (map f counts)" by simp
  then have mem: "map f counts ! a \<in> set (map f counts)" by (rule nth_mem)
  have "sum_list (map f counts) \<noteq> 0"
  proof
    assume "sum_list (map f counts) = 0"
    with nonneg have "\<forall>x\<in>set (map f counts). x = 0" by (simp only: sum_list_nonneg_eq_0_iff)
    with mem have "map f counts ! a = 0" by blast
    with gt show False by simp
  qed
  moreover from nonneg have "0 \<le> sum_list (map f counts)" by (intro sum_list_nonneg) blast
  ultimately have pos: "0 < sum_list (map f counts)" by simp
  from normalized_props [OF nonneg pos] obtain
    n1: "\<forall>p\<in>set (map (\<lambda>x. x / sum_list (map f counts)) (map f counts)). 0 \<le> p"
    and n2: "sum_list (map (\<lambda>x. x / sum_list (map f counts)) (map f counts)) = 1" by blast
  have ap: "action_probs counts temp = Inr (map (\<lambda>x. x / sum_list (map f counts)) (map f counts))"
    using False pos sum_ok unfolding action_probs_def me by simp
  have z: "\<forall>a<length counts. counts ! a = 0 \<longrightarrow>
             map (\<lambda>x. x / sum_list (map f counts)) (map f counts) ! a = 0"
    by (simp add: f0)
  have "length (map (\<lambda>x. x / sum_list (map f counts)) (map f counts)) = length counts" by simp
  with ap n1 n2 z show ?thesis by blast
qed

lemma action_probs_unvisited:
  assumes "0 < temp" "counts \<noteq> []" "\<forall>c\<in>set counts. c = 0"
  shows "action_probs counts temp = Inl ZeroDivisionError"
proof -
  from assms(1) have e: "0 < 1 / temp" by simp
  show ?thesis
    using assms(1,2) by (simp add: action_probs_def map_err_pow_zero [OF e assms(3)])
qed

lemma length_counts_of: "length (counts_of E b m) = getActionSize (game E)"
  by (simp add: counts_of_def)

lemma nth_counts_of:
  "a < getActionSize (game E) \<Longrightarrow>
   counts_of E b m ! a = edge_count m (stringRepresentation (game E) b) (int a)"
  by (simp add: counts_of_def edge_count_def)

lemma run_sims_edges_legal:
  "run_sims E b n m = Inr m1 \<Longrightarrow> oracle_legal E \<Longrightarrow> edges_legal E m \<Longrightarrow> edges_legal E m1"
proof (induction n arbitrary: m)
  case 0
  then show ?case by simp
next
  case (Suc n)
  from Suc.prems(1) obtain v m0 where s: "search E b 0 m = Inr (v, m0)"
    and r: "run_sims E b n m0 = Inr m1"
    by (auto split: sum.splits)
  from search_edges_legal [OF s Suc.prems(2,3)] have "edges_legal E m0" .
  from Suc.IH [OF r Suc.prems(2) this] show ?case .
qed

text \<open>
  Claim C1, as the code has it. Let the simulations of \<open>getActionProb\<close> complete, and
  let the temperature be 0, or positive with the float computations of lines 46 and
  47 in the range of a double. If afterwards some root edge of the action space has a
  positive visit count, the result is a vector over the whole action space with
  non-negative entries that sum to 1 and with zero mass on every action whose root
  edge was never visited; for an oracle and an evaluator that keep their contracts,
  and tables whose edges are legal and whose policies are normalized at the start,
  this includes every action that the mask stored for the root marks illegal. If no
  root edge has been visited and the temperature is positive, the division by the
  zero sum raises \<open>ZeroDivisionError\<close>.
\<close>

theorem action_distribution_when_root_visited:
  "(run_sims E b (nat (numMCTSSims (args E))) m = Inr m1 \<and> 0 \<le> temp
      \<and> (temp = 0 \<or> in_double_range (counts_of E b m1) temp)
      \<and> (\<exists>a<getActionSize (game E).
            0 < edge_count m1 (stringRepresentation (game E) b) (int a)) \<longrightarrow>
      (\<exists>probs. getActionProb E b temp m = Inr (probs, m1)
         \<and> length probs = getActionSize (game E)
         \<and> (\<forall>p\<in>set probs. 0 \<le> p)
         \<and> sum_list probs = 1
         \<and> (\<forall>a<getActionSize (game E).
               edge_count m1 (stringRepresentation (game E) b) (int a) = 0 \<longrightarrow> probs ! a = 0)
         \<and> (oracle_legal E \<and> evaluator_ok E \<and> edges_legal E m \<and> policies_normalized m \<longrightarrow>
               (\<forall>a<getActionSize (game E). \<forall>vs.
                   Vs m1 (stringRepresentation (game E) b) = Some vs
                   \<and> \<not> (a < length vs \<and> vs ! a) \<longrightarrow> probs ! a = 0))))
   \<and> (run_sims E b (nat (numMCTSSims (args E))) m = Inr m1 \<and> 0 < temp
        \<and> 0 < getActionSize (game E)
        \<and> (\<forall>a<getActionSize (game E).
              edge_count m1 (stringRepresentation (game E) b) (int a) = 0) \<longrightarrow>
        getActionProb E b temp m = Inl ZeroDivisionError)"
proof (intro conjI impI)
  let ?s = "stringRepresentation (game E) b"
  let ?n = "getActionSize (game E)"
  assume h: "run_sims E b (nat (numMCTSSims (args E))) m = Inr m1 \<and> 0 \<le> temp
      \<and> (temp = 0 \<or> in_double_range (counts_of E b m1) temp)
      \<and> (\<exists>a<?n. 0 < edge_count m1 ?s (int a))"
  then have sims: "run_sims E b (nat (numMCTSSims (args E))) m = Inr m1" and temp: "0 \<le> temp"
    and range: "temp = 0 \<or> in_double_range (counts_of E b m1) temp"
    by simp_all
  from h have "\<exists>a<length (counts_of E b m1). 0 < counts_of E b m1 ! a"
    by (auto simp: length_counts_of nth_counts_of)
  from action_probs_valid [OF temp range this] obtain probs where
    ap: "action_probs (counts_of E b m1) temp = Inr probs"
    and len: "length probs = ?n"
    and nn: "\<forall>p\<in>set probs. 0 \<le> p" and one: "sum_list probs = 1"
    and zero: "\<forall>a<?n. counts_of E b m1 ! a = 0 \<longrightarrow> probs ! a = 0"
    by (auto simp: length_counts_of)
  have gp: "getActionProb E b temp m = Inr (probs, m1)"
    using sims ap by (simp add: getActionProb_def)
  have z: "\<forall>a<?n. edge_count m1 ?s (int a) = 0 \<longrightarrow> probs ! a = 0"
    using zero by (simp add: nth_counts_of)
  have ill: "\<forall>a<?n. \<forall>vs. Vs m1 ?s = Some vs \<and> \<not> (a < length vs \<and> vs ! a) \<longrightarrow> probs ! a = 0"
    if ol: "oracle_legal E \<and> evaluator_ok E \<and> edges_legal E m \<and> policies_normalized m"
  proof (intro allI impI)
    fix a vs assume a: "a < ?n" and v: "Vs m1 ?s = Some vs \<and> \<not> (a < length vs \<and> vs ! a)"
    from ol sims have el: "edges_legal E m1" by (blast intro: run_sims_edges_legal)
    have "Nsa m1 (?s, int a) = None"
    proof (rule ccontr)
      assume "Nsa m1 (?s, int a) \<noteq> None"
      then have "Nsa m1 (?s, int a) \<noteq> None \<or> Qsa m1 (?s, int a) \<noteq> None" by simp
      from edges_legalD(4) [OF el this] v have "legal_action E vs (int a)" by auto
      with v show False by (simp add: legal_action_def)
    qed
    then have "edge_count m1 ?s (int a) = 0" by (simp add: edge_count_def)
    with z a show "probs ! a = 0" by simp
  qed
  from gp len nn one z ill
  show "\<exists>probs. getActionProb E b temp m = Inr (probs, m1)
         \<and> length probs = ?n
         \<and> (\<forall>p\<in>set probs. 0 \<le> p)
         \<and> sum_list probs = 1
         \<and> (\<forall>a<?n. edge_count m1 ?s (int a) = 0 \<longrightarrow> probs ! a = 0)
         \<and> (oracle_legal E \<and> evaluator_ok E \<and> edges_legal E m \<and> policies_normalized m \<longrightarrow>
               (\<forall>a<?n. \<forall>vs. Vs m1 ?s = Some vs \<and> \<not> (a < length vs \<and> vs ! a) \<longrightarrow> probs ! a = 0))"
    by blast
next
  let ?s = "stringRepresentation (game E) b"
  let ?n = "getActionSize (game E)"
  assume h: "run_sims E b (nat (numMCTSSims (args E))) m = Inr m1 \<and> 0 < temp \<and> 0 < ?n
        \<and> (\<forall>a<?n. edge_count m1 ?s (int a) = 0)"
  then have ne: "counts_of E b m1 \<noteq> []" using length_counts_of [of E b m1] by auto
  have "\<forall>c\<in>set (counts_of E b m1). c = 0"
  proof
    fix c assume "c \<in> set (counts_of E b m1)"
    then obtain a where "a < ?n" "c = counts_of E b m1 ! a"
      by (auto simp: in_set_conv_nth length_counts_of)
    with h show "c = 0" by (simp add: nth_counts_of)
  qed
  from action_probs_unvisited [OF _ ne this] h
  show "getActionProb E b temp m = Inl ZeroDivisionError"
    by (simp add: getActionProb_def)
qed

lemma countdown_two_sims:
  "\<exists>m1. run_sims (countdown_env 2) 2 2 empty_mcts = Inr m1
      \<and> Nsa m1 (''2'', 0) = Some 1 \<and> Nsa m1 (''2'', 1) = None
      \<and> Vs m1 ''2'' = Some [True, True]"
  by (simp add: run_sims_two eval_search countdown_env_sel countdown_game_sel countdown_key_def
        empty_mcts_def)

lemma countdown_one_sim:
  "\<exists>m1. run_sims (countdown_env 1) 2 1 empty_mcts = Inr m1
      \<and> Nsa m1 (''2'', 0) = None \<and> Nsa m1 (''2'', 1) = None"
  by (simp add: eval_search countdown_env_sel countdown_game_sel countdown_key_def
        empty_mcts_def)

theorem action_distribution_when_root_visited_witness:
  "\<exists>probs m1. run_sims (countdown_env 2) 2 (nat (numMCTSSims (args (countdown_env 2)))) empty_mcts
                 = Inr m1
      \<and> counts_of (countdown_env 2) 2 m1 = [1, 0]
      \<and> in_double_range [1, 0] 1
      \<and> 0 < edge_count m1 (stringRepresentation (game (countdown_env 2)) 2) (int 0)
      \<and> getActionProb (countdown_env 2) 2 1 empty_mcts = Inr (probs, m1)
      \<and> length probs = 2 \<and> sum_list probs = 1 \<and> probs ! 1 = 0"
proof -
  let ?E = "countdown_env 2"
  from countdown_two_sims obtain m1 where
    r: "run_sims ?E 2 2 empty_mcts = Inr m1"
    and e0: "Nsa m1 (''2'', 0) = Some 1" and e1: "Nsa m1 (''2'', 1) = None" by blast
  have sims: "run_sims ?E 2 (nat (numMCTSSims (args ?E))) empty_mcts = Inr m1"
    using r by (simp add: countdown_env_sel)
  have key: "stringRepresentation (game ?E) 2 = ''2''"
    by (simp add: countdown_env_sel countdown_game_sel countdown_key_def)
  have n: "getActionSize (game ?E) = 2" by (simp add: countdown_env_sel countdown_game_sel)
  have c: "counts_of ?E 2 m1 = [1, 0]"
    using e0 e1 by (simp add: counts_of_def Let_def countdown_env_sel countdown_game_sel
          countdown_key_def upt_0_2)
  have rng: "in_double_range [1, 0] 1"
    by (simp add: in_double_range_def double_overflow_small)
  have c0: "0 < edge_count m1 (stringRepresentation (game ?E) 2) (int 0)"
    using e0 by (simp add: key edge_count_def)
  have c1: "edge_count m1 (stringRepresentation (game ?E) 2) (int 1) = 0"
    using e1 by (simp add: key edge_count_def)
  have vis: "\<exists>a<getActionSize (game ?E). 0 < edge_count m1 (stringRepresentation (game ?E) 2) (int a)"
    using c0 n by (intro exI [of _ 0]) simp
  have t: "(0::real) \<le> 1" by simp
  have rng': "(1::real) = 0 \<or> in_double_range (counts_of ?E 2 m1) 1"
    using rng c by simp
  from action_distribution_when_root_visited [of ?E 2 empty_mcts m1 1] sims t rng' vis
  obtain probs where
    gp: "getActionProb ?E 2 1 empty_mcts = Inr (probs, m1)"
    and len: "length probs = getActionSize (game ?E)" and one: "sum_list probs = 1"
    and z: "\<forall>a<getActionSize (game ?E).
               edge_count m1 (stringRepresentation (game ?E) 2) (int a) = 0 \<longrightarrow> probs ! a = 0"
    by blast
  from z c1 n have "probs ! 1 = 0" by simp
  with sims c rng c0 gp len one n show ?thesis by auto
qed

text \<open>
  Claim C1 as stated promises a distribution for every budget of at least 1. With
  budget 1 on empty tables the single simulation only expands the root, all counts
  are 0, and at temperature 1 the call raises \<open>ZeroDivisionError\<close>.
\<close>

theorem action_distribution_counterexample:
  "1 \<le> numMCTSSims (args (countdown_env 1))
   \<and> (0::real) \<le> 1
   \<and> getActionProb (countdown_env 1) 2 1 empty_mcts = Inl ZeroDivisionError"
proof -
  let ?E = "countdown_env 1"
  from countdown_one_sim obtain m1 where
    r: "run_sims ?E 2 1 empty_mcts = Inr m1"
    and e: "Nsa m1 (''2'', 0) = None" "Nsa m1 (''2'', 1) = None" by blast
  have c: "counts_of ?E 2 m1 = [0, 0]"
    using e by (simp add: counts_of_def Let_def countdown_env_sel countdown_game_sel
          countdown_key_def upt_0_2)
  have "action_probs [0, 0] 1 = Inl ZeroDivisionError"
    by (rule action_probs_unvisited) simp_all
  with r c have "getActionProb ?E 2 1 empty_mcts = Inl ZeroDivisionError"
    by (simp add: getActionProb_def countdown_env_sel)
  then show ?thesis by (simp add: countdown_env_sel)
qed

subsection \<open>Edge values and edge counts go together\<close>

text \<open>The well-formedness that the selection property asks of the edge tables holds
  of the empty tables and is kept by every call of \<open>search\<close> that returns.\<close>

lemma edge_tables_agree_empty: "edge_tables_agree empty_mcts"
  by (simp add: edge_tables_agree_def empty_mcts_def)

lemma edge_tables_agree_cong:
  "Qsa m' = Qsa m \<Longrightarrow> Nsa m' = Nsa m \<Longrightarrow> edge_tables_agree m' = edge_tables_agree m"
  by (simp add: edge_tables_agree_def)

lemma pre_search_Done_edges:
  assumes "pre_search E b depth m = Done (Inr (v, m'))"
  shows "Qsa m' = Qsa m \<and> Nsa m' = Nsa m"
  using pre_search_Done [OF assms]
proof (elim disjE conjE)
  assume "expand E b (stringRepresentation (game E) b)
            (m\<lparr>Es := (Es m)(stringRepresentation (game E) b \<mapsto> 0)\<rparr>) = Inr (v, m')"
  from expand_Inr [OF this] show ?thesis by auto
qed simp_all

lemma search_edge_tables_agree:
  assumes res: "search E b depth m = Inr (v, m')" and ag: "edge_tables_agree m"
  shows "edge_tables_agree m'"
proof -
  have "edge_tables_agree m \<longrightarrow> edge_tables_agree m'"
  proof (rule search_rule [where R = "\<lambda>b depth m v m'. edge_tables_agree m \<longrightarrow> edge_tables_agree m'",
        OF _ _ res])
    fix b depth m v m'
    assume pd: "pre_search E b depth m = Done (Inr (v, m'))"
    from pre_search_Done_edges [OF pd] show "edge_tables_agree m \<longrightarrow> edge_tables_agree m'"
      using edge_tables_agree_cong [of m' m] by blast
  next
    fix b depth m s a nb m1 v m2 v' m'
    assume pd: "pre_search E b depth m = Descend s a nb m1"
      and ih: "edge_tables_agree m1 \<longrightarrow> edge_tables_agree m2"
      and bk: "backup s a v m2 = Inr (v', m')"
    show "edge_tables_agree m \<longrightarrow> edge_tables_agree m'"
    proof
      assume agm: "edge_tables_agree m"
      from pre_search_Descend [OF pd] have "m1 = m\<lparr>Es := (Es m)(s \<mapsto> 0)\<rparr>" by blast
      then have "Qsa m1 = Qsa m" "Nsa m1 = Nsa m" by simp_all
      from edge_tables_agree_cong [OF this] agm have "edge_tables_agree m1" by simp
      with ih have "edge_tables_agree m2" by simp
      then have ag2: "\<And>e. (Qsa m2 e \<noteq> None) = (\<exists>k>0. Nsa m2 e = Some k)"
        unfolding edge_tables_agree_def by blast
      from backup_Inr [OF bk] obtain k q n where
        m': "m' = m2\<lparr>Qsa := (Qsa m2)((s, a) \<mapsto> q), Nsa := (Nsa m2)((s, a) \<mapsto> n),
                     Ns := (Ns m2)(s \<mapsto> k + 1)\<rparr>"
        and alt: "(Qsa m2 (s, a) = None \<and> q = v \<and> n = 1)
              \<or> (\<exists>q0 n0. Qsa m2 (s, a) = Some q0 \<and> Nsa m2 (s, a) = Some n0
                    \<and> q = (real n0 * q0 + v) / (real n0 + 1) \<and> n = n0 + 1)"
        by blast
      from alt have n: "0 < n" by auto
      show "edge_tables_agree m'"
        unfolding edge_tables_agree_def
      proof
        fix e
        show "(Qsa m' e \<noteq> None) = (\<exists>k>0. Nsa m' e = Some k)"
        proof (cases "e = (s, a)")
          case True
          with n show ?thesis unfolding m' by simp
        next
          case False
          then have "Qsa m' e = Qsa m2 e" "Nsa m' e = Nsa m2 e" unfolding m' by simp_all
          with ag2 [of e] show ?thesis by (simp only:)
        qed
      qed
    qed
  qed
  with ag show ?thesis by simp
qed

end
